theory Spec2Isabelle
  imports Complex_Main "HOL-Library.Word"
begin

section \<open>In-flight counters (observability.Metrics, middleware.Instrument)\<close>

text \<open>
  \<^verbatim>\<open>Metrics.inflight\<close> is a \<^verbatim>\<open>sync.Map\<close> from endpoint names to \<^verbatim>\<open>*atomic.Int64\<close>.
  Every key owns its own counter cell, so the map is modelled by value: a partial
  map from endpoint names to 64-bit words (\<^verbatim>\<open>Add\<close> wraps around).
\<close>

type_synonym inflight = "string \<rightharpoonup> 64 word"

text \<open>\<^verbatim>\<open>sync.Map.LoadOrStore\<close>: the existing value if present, otherwise store and
  return the given one; the flag tells whether the value was loaded.\<close>

definition LoadOrStore :: "inflight \<Rightarrow> string \<Rightarrow> 64 word \<Rightarrow> inflight \<times> 64 word \<times> bool" where
  "LoadOrStore m key new =
     (case m key of
        Some actual \<Rightarrow> (m, actual, True)
      | None \<Rightarrow> (m(key \<mapsto> new), new, False))"

definition IncInflight :: "inflight \<Rightarrow> string \<Rightarrow> inflight" where
  "IncInflight m endpoint =
     (case LoadOrStore m endpoint 0 of (m', v, _) \<Rightarrow> m'(endpoint \<mapsto> v + 1))"

definition DecInflight :: "inflight \<Rightarrow> string \<Rightarrow> inflight" where
  "DecInflight m endpoint =
     (case m endpoint of
        Some v \<Rightarrow> m(endpoint \<mapsto> v + (- 1))
      | None \<Rightarrow> m)"

text \<open>What the \<^verbatim>\<open>http_inflight\<close> gauge reads for an endpoint; an endpoint without an
  entry has no request in flight.\<close>

definition inflight_value :: "inflight \<Rightarrow> string \<Rightarrow> 64 word" where
  "inflight_value m endpoint = (case m endpoint of Some v \<Rightarrow> v | None \<Rightarrow> 0)"

text \<open>
  \<^verbatim>\<open>Instrument\<close> wraps a handler: \<^verbatim>\<open>IncInflight\<close> on entry, \<^verbatim>\<open>defer DecInflight\<close>,
  then the handler, then the request counter and the latency histogram. Requests
  run concurrently, so the wrapper is split at the two points where it touches the
  shared map, and a schedule interleaves the requests.
\<close>

datatype rpc = RNew | RInHandler | RFinished

text \<open>How \<^verbatim>\<open>next(c)\<close> ended: with a response status, or by a panic (the deferred
  decrement runs in both cases, the metrics after \<^verbatim>\<open>next(c)\<close> only in the first).\<close>

datatype outcome = Returned nat | Panicked

record request =
  endpoint :: string
  rpc :: rpc
  incs :: nat
  decs :: nat

record msys =
  inflight :: inflight
  reqs :: "request list"
  http_requests :: "(string \<times> nat) list"

datatype mevent = Enter nat | Leave nat outcome

definition Instrument_enter :: "msys \<Rightarrow> nat \<Rightarrow> msys option" where
  "Instrument_enter s i =
     (if i < length (reqs s) \<and> rpc (reqs s ! i) = RNew then
        let r = reqs s ! i in
        Some (s\<lparr>inflight := IncInflight (inflight s) (endpoint r),
                reqs := (reqs s)[i := r\<lparr>rpc := RInHandler, incs := incs r + 1\<rparr>]\<rparr>)
      else None)"

definition Instrument_leave :: "msys \<Rightarrow> nat \<Rightarrow> outcome \<Rightarrow> msys option" where
  "Instrument_leave s i out =
     (if i < length (reqs s) \<and> rpc (reqs s ! i) = RInHandler then
        let r = reqs s ! i in
        Some (s\<lparr>inflight := DecInflight (inflight s) (endpoint r),
                reqs := (reqs s)[i := r\<lparr>rpc := RFinished, decs := decs r + 1\<rparr>],
                http_requests :=
                  (case out of
                     Returned status \<Rightarrow> http_requests s @ [(endpoint r, status)]
                   | Panicked \<Rightarrow> http_requests s)\<rparr>)
      else None)"

fun mstep :: "msys \<Rightarrow> mevent \<Rightarrow> msys option" where
  "mstep s (Enter i) = Instrument_enter s i"
| "mstep s (Leave i out) = Instrument_leave s i out"

fun mexec :: "msys \<Rightarrow> mevent list \<Rightarrow> msys option" where
  "mexec s [] = Some s"
| "mexec s (e # es) = (case mstep s e of None \<Rightarrow> None | Some s' \<Rightarrow> mexec s' es)"

definition minit :: "string list \<Rightarrow> msys" where
  "minit eps =
     \<lparr>inflight = Map.empty,
      reqs = map (\<lambda>e. \<lparr>endpoint = e, rpc = RNew, incs = 0, decs = 0\<rparr>) eps,
      http_requests = []\<rparr>"

definition in_handler :: "msys \<Rightarrow> string \<Rightarrow> nat" where
  "in_handler s e = length (filter (\<lambda>r. endpoint r = e \<and> rpc r = RInHandler) (reqs s))"

text \<open>Invariant of the request lifecycles over the shared map.\<close>

definition req_ok :: "request \<Rightarrow> bool" where
  "req_ok r \<longleftrightarrow>
     incs r = (if rpc r = RNew then 0 else 1) \<and> decs r = (if rpc r = RFinished then 1 else 0)"

definition minv :: "msys \<Rightarrow> bool" where
  "minv s \<longleftrightarrow>
     (\<forall>r \<in> set (reqs s). req_ok r) \<and>
     (\<forall>e. inflight_value (inflight s) e = of_nat (in_handler s e)) \<and>
     (\<forall>e. 0 < in_handler s e \<longrightarrow> e \<in> dom (inflight s))"

section \<open>Errors, time and contexts\<close>

text \<open>
  The values of Go's \<^verbatim>\<open>error\<close> interface that occur: the two context errors, and the
  string errors of \<^verbatim>\<open>errors.New\<close> and \<^verbatim>\<open>fmt.Errorf\<close>. A nil error is \<open>None\<close>.
\<close>

datatype error = Canceled | DeadlineExceeded | ErrorString string

fun Error :: "error \<Rightarrow> string" where
  "Error Canceled = ''context canceled''"
| "Error DeadlineExceeded = ''context deadline exceeded''"
| "Error (ErrorString s) = s"

text \<open>\<^verbatim>\<open>%v\<close> of an \<^verbatim>\<open>error\<close> value in \<^verbatim>\<open>fmt.Errorf\<close>.\<close>

fun fmt_v :: "error option \<Rightarrow> string" where
  "fmt_v None = ''<nil>''"
| "fmt_v (Some e) = Error e"

text \<open>
  Instants and durations are integers counting nanoseconds, as \<^verbatim>\<open>time.Duration\<close> does;
  its arithmetic is that of \<^verbatim>\<open>int64\<close> and wraps around.
\<close>

definition int64 :: "int \<Rightarrow> int" where
  "int64 x = signed_take_bit 63 x"

definition Millisecond :: int where
  "Millisecond = 1000000"

text \<open>\<^verbatim>\<open>time.Duration(ms) * time.Millisecond\<close>\<close>

definition Duration_ms :: "int \<Rightarrow> int" where
  "Duration_ms ms = int64 (ms * Millisecond)"

text \<open>\<^verbatim>\<open>time.Since(start).Milliseconds()\<close>, read at the instant \<open>now\<close>; Go's integer
  division truncates towards zero.\<close>

definition quo :: "int \<Rightarrow> int \<Rightarrow> int" where
  "quo x y = (if (x < 0) = (y < 0) then \<bar>x\<bar> div \<bar>y\<bar> else - (\<bar>x\<bar> div \<bar>y\<bar>))"

definition Since_ms :: "int \<Rightarrow> int \<Rightarrow> int" where
  "Since_ms start now = quo (int64 (now - start)) Millisecond"

text \<open>
  A \<^verbatim>\<open>context.Context\<close> is described by the instant at which its \<^verbatim>\<open>Done\<close> channel is
  closed (\<open>None\<close>: never) and by the error \<^verbatim>\<open>Err()\<close> returns from then on.
\<close>

record "context" =
  Done_at :: "int option"
  Err :: error

definition is_Done :: "context \<Rightarrow> int \<Rightarrow> bool" where
  "is_Done ctx now = (case Done_at ctx of None \<Rightarrow> False | Some t \<Rightarrow> t \<le> now)"

text \<open>
  \<^verbatim>\<open>context.WithTimeout(parent, timeout)\<close> called at \<open>now\<close>: the derived context is done
  as soon as the parent is, with the parent's error, or when the timeout has passed, with
  \<^verbatim>\<open>DeadlineExceeded\<close>, whichever comes first. A parent that is already done wins; a
  timeout that is not positive expires at once. When both fall on the same later instant
  the error is the one of whichever cancellation ran first (\<open>parent_first\<close>).
\<close>

definition WithTimeout :: "context \<Rightarrow> int \<Rightarrow> int \<Rightarrow> bool \<Rightarrow> context" where
  "WithTimeout parent now timeout parent_first =
     (let deadline = now + max 0 timeout in
      case Done_at parent of
        None \<Rightarrow> \<lparr>Done_at = Some deadline, Err = DeadlineExceeded\<rparr>
      | Some t \<Rightarrow>
          if t \<le> now \<or> t < deadline \<or> (t = deadline \<and> parent_first)
          then \<lparr>Done_at = Some t, Err = Err parent\<rparr>
          else \<lparr>Done_at = Some deadline, Err = DeadlineExceeded\<rparr>)"

text \<open>The \<^verbatim>\<open>cancel\<close> function returned by \<^verbatim>\<open>WithTimeout\<close>, called at \<open>now\<close>.\<close>

definition cancel :: "context \<Rightarrow> int \<Rightarrow> context" where
  "cancel ctx now = (if is_Done ctx now then ctx else \<lparr>Done_at = Some now, Err = Canceled\<rparr>)"

section \<open>The simulated dependencies (services.Services)\<close>

record ServiceAData =
  a_Value :: string
  a_SleepMs :: int

record ServiceBData =
  b_Value :: string
  b_SleepMs :: int

text \<open>The zero values \<^verbatim>\<open>ServiceAData{}\<close> and \<^verbatim>\<open>ServiceBData{}\<close>.\<close>

definition ServiceAData_zero :: ServiceAData where
  "ServiceAData_zero = \<lparr>a_Value = [], a_SleepMs = 0\<rparr>"

definition ServiceBData_zero :: ServiceBData where
  "ServiceBData_zero = \<lparr>b_Value = [], b_SleepMs = 0\<rparr>"

text \<open>
  What the Go runtime contributes to one call: the value returned by \<^verbatim>\<open>rand.Float64()\<close>
  (in \<open>[0, 1)\<close>; a float is below the constant \<^verbatim>\<open>0.05\<close> exactly when it is below
  \<open>1/20\<close>, because no float lies between the two), the value \<^verbatim>\<open>rand.Intn(n)\<close> returns
  for a bound \<open>n\<close> (in \<open>[0, n)\<close>), and the case a \<^verbatim>\<open>select\<close> takes when both of its cases
  are ready at the same instant.
\<close>

record runtime =
  Float64 :: real
  Intn :: "int \<Rightarrow> int"
  pick_timer :: bool

definition randRange :: "int \<Rightarrow> int \<Rightarrow> runtime \<Rightarrow> int" where
  "randRange lo hi rt = lo + Intn rt (hi - lo + 1)"

datatype select_case = TimerFired | CtxDone

text \<open>
  \<^verbatim>\<open>select { case <-time.After(d): ... case <-ctx.Done(): ... }\<close> entered at \<open>now\<close>: the
  case that becomes ready first proceeds, at that instant; the result also gives the
  instant. Time passes only while a goroutine is blocked.
\<close>

definition select_After_Done :: "int \<Rightarrow> int \<Rightarrow> context \<Rightarrow> bool \<Rightarrow> select_case \<times> int" where
  "select_After_Done now d ctx pick =
     (let timer = now + max 0 d in
      case Done_at ctx of
        None \<Rightarrow> (TimerFired, timer)
      | Some t \<Rightarrow>
          let dn = max now t in
          if timer < dn then (TimerFired, timer)
          else if dn < timer then (CtxDone, dn)
          else (if pick then TimerFired else CtxDone, timer))"

text \<open>Both services take the instant of the call and return their result with the
  instant of the return.\<close>

definition ServiceA :: "context \<Rightarrow> runtime \<Rightarrow> int \<Rightarrow> (ServiceAData \<times> error option) \<times> int" where
  "ServiceA ctx rt now =
     (let ms = randRange 50 150 rt in
      case select_After_Done now (Duration_ms ms) ctx (pick_timer rt) of
        (TimerFired, t) \<Rightarrow> ((\<lparr>a_Value = ''data-from-A'', a_SleepMs = ms\<rparr>, None), t)
      | (CtxDone, t) \<Rightarrow> ((ServiceAData_zero, Some (Err ctx)), t))"

definition ServiceB :: "context \<Rightarrow> runtime \<Rightarrow> int \<Rightarrow> (ServiceBData \<times> error option) \<times> int" where
  "ServiceB ctx rt now =
     (if Float64 rt < 5 / 100 then
        ((ServiceBData_zero, Some (ErrorString ''service B simulated failure'')), now)
      else
        let ms = randRange 300 1200 rt in
        case select_After_Done now (Duration_ms ms) ctx (pick_timer rt) of
          (TimerFired, t) \<Rightarrow> ((\<lparr>b_Value = ''data-from-B'', b_SleepMs = ms\<rparr>, None), t)
        | (CtxDone, t) \<Rightarrow> ((ServiceBData_zero, Some (Err ctx)), t))"

section \<open>Metric recordings and the service wrappers (handlers.callServiceA/B)\<close>

datatype metric =
    ServiceDuration string int
  | ServiceErrors string
  | SemWaitB int

definition callServiceA ::
  "context \<Rightarrow> runtime \<Rightarrow> int \<Rightarrow> (ServiceAData \<times> error option) \<times> int \<times> metric list" where
  "callServiceA ctx rt start =
     (case ServiceA ctx rt start of
        ((d, err), t) \<Rightarrow>
          ((d, err), t,
           ServiceDuration ''A'' (Since_ms start t) #
             (if err \<noteq> None then [ServiceErrors ''A''] else [])))"

definition callServiceB ::
  "context \<Rightarrow> runtime \<Rightarrow> int \<Rightarrow> (ServiceBData \<times> error option) \<times> int \<times> metric list" where
  "callServiceB ctx rt start =
     (case ServiceB ctx rt start of
        ((d, err), t) \<Rightarrow>
          ((d, err), t,
           ServiceDuration ''B'' (Since_ms start t) #
             (if err \<noteq> None then [ServiceErrors ''B''] else [])))"

text \<open>A service was invoked exactly when its wrapper recorded a duration.\<close>

fun calls :: "string \<Rightarrow> metric list \<Rightarrow> nat" where
  "calls svc [] = 0"
| "calls svc (ServiceDuration s ms # ms') = (if s = svc then 1 else 0) + calls svc ms'"
| "calls svc (_ # ms') = calls svc ms'"

section \<open>Responses (models) and the sequential handler (Handlers.Sync)\<close>

datatype response_body =
    CombinedResponse ServiceAData ServiceBData string int
  | ErrorResponse string int string

datatype response = JSON (status: nat) (body: response_body)

definition StatusOK :: nat where "StatusOK = 200"
definition StatusRequestTimeout :: nat where "StatusRequestTimeout = 408"
definition StatusServiceUnavailable :: nat where "StatusServiceUnavailable = 503"

definition respondErr :: "string \<Rightarrow> int \<Rightarrow> int \<Rightarrow> nat \<Rightarrow> error \<Rightarrow> response" where
  "respondErr mode start now st err = JSON st (ErrorResponse mode (Since_ms start now) (Error err))"

text \<open>The handler called at \<open>start\<close>; \<open>rtA\<close> and \<open>rtB\<close> are the runtime's contributions
  to the two calls. The result is the response with the metrics recorded.\<close>

definition Sync :: "context \<Rightarrow> runtime \<Rightarrow> runtime \<Rightarrow> int \<Rightarrow> response \<times> metric list" where
  "Sync ctx rtA rtB start =
     (case callServiceA ctx rtA start of
        ((a, errA), t1, obsA) \<Rightarrow>
          (case errA of
             Some e \<Rightarrow> (respondErr ''sync'' start t1 StatusRequestTimeout e, obsA)
           | None \<Rightarrow>
               (case callServiceB ctx rtB t1 of
                  ((b, errB), t2, obsB) \<Rightarrow>
                    (case errB of
                       Some e \<Rightarrow>
                         (respondErr ''sync'' start t2 StatusServiceUnavailable e, obsA @ obsB)
                     | None \<Rightarrow>
                         (JSON StatusOK (CombinedResponse a b ''sync'' (Since_ms start t2)),
                          obsA @ obsB)))))"

text \<open>The outcome kind a caller reads from the status line.\<close>

datatype outcome_kind = Success | DependencyFailure | Cancelled | Other

definition kind_of :: "response \<Rightarrow> outcome_kind" where
  "kind_of r =
     (if status r = StatusOK then Success
      else if status r = StatusServiceUnavailable then DependencyFailure
      else if status r = StatusRequestTimeout then Cancelled
      else Other)"

section \<open>Configuration (config.Load) and start-up (cmd/server)\<close>









text \<open>
  What \<^verbatim>\<open>main\<close> hands to \<^verbatim>\<open>handlers.New\<close>: the semaphore
  \<^verbatim>\<open>make(chan struct{}, cfg.BConcurrencyLimit)\<close>, of which only the capacity matters,
  and the timeout in milliseconds.
\<close>

record Handlers =
  SemB_cap :: nat
  TimeoutMs :: int



text \<open>The context \<^verbatim>\<open>AsyncTimeout\<close> derives when it is called at \<open>start\<close>.\<close>

definition AsyncTimeout_ctx :: "Handlers \<Rightarrow> context \<Rightarrow> int \<Rightarrow> bool \<Rightarrow> context" where
  "AsyncTimeout_ctx h parent start parent_first =
     WithTimeout parent start (Duration_ms (TimeoutMs h)) parent_first"

section \<open>The concurrent handlers (Handlers.Async, AsyncLimited, AsyncTimeout)\<close>

datatype strategy = Async | AsyncLimited | AsyncTimeout

fun mode_name :: "strategy \<Rightarrow> string" where
  "mode_name Async = ''async''"
| "mode_name AsyncLimited = ''async-limited''"
| "mode_name AsyncTimeout = ''async-timeout''"

type_synonym aRes = "ServiceAData \<times> error option"
type_synonym bRes = "ServiceBData \<times> error option"

text \<open>The variables of the fan-in loop.\<close>

record fanin_vars =
  gotA :: bool
  gotB :: bool
  v_a :: ServiceAData
  v_b :: ServiceBData
  v_eA :: "error option"
  v_eB :: "error option"

definition fanin_init :: fanin_vars where
  "fanin_init =
     \<lparr>gotA = False, gotB = False, v_a = ServiceAData_zero, v_b = ServiceBData_zero,
      v_eA = None, v_eB = None\<rparr>"

text \<open>The case of the loop's \<^verbatim>\<open>select\<close> that proceeds.\<close>

datatype select_event = RecvA aRes | RecvB bRes | CtxIsDone

text \<open>One iteration of \<^verbatim>\<open>for !(gotA && gotB) { select { ... } }\<close> whose \<^verbatim>\<open>select\<close> returns
  at \<open>now\<close>: either the updated variables, or the response of the cancellation case.\<close>

definition fanin_iter ::
  "string \<Rightarrow> context \<Rightarrow> int \<Rightarrow> fanin_vars \<Rightarrow> select_event \<Rightarrow> int \<Rightarrow> fanin_vars + response" where
  "fanin_iter mode c start v ev now =
     (case ev of
        RecvA (d, e) \<Rightarrow> Inl (v\<lparr>v_a := d, v_eA := e, gotA := True\<rparr>)
      | RecvB (d, e) \<Rightarrow> Inl (v\<lparr>v_b := d, v_eB := e, gotB := True\<rparr>)
      | CtxIsDone \<Rightarrow> Inr (respondErr mode start now StatusRequestTimeout (Err c)))"

text \<open>\<^verbatim>\<open>fmt.Errorf("A:%v B:%v", eA, eB)\<close>\<close>

definition Errorf_AB :: "error option \<Rightarrow> error option \<Rightarrow> error" where
  "Errorf_AB e1 e2 = ErrorString (''A:'' @ fmt_v e1 @ '' B:'' @ fmt_v e2)"

text \<open>The code after the loop.\<close>

definition fanin_finish :: "string \<Rightarrow> int \<Rightarrow> fanin_vars \<Rightarrow> int \<Rightarrow> response" where
  "fanin_finish mode start v now =
     (if v_eA v \<noteq> None \<or> v_eB v \<noteq> None then
        respondErr mode start now StatusServiceUnavailable (Errorf_AB (v_eA v) (v_eB v))
      else JSON StatusOK (CombinedResponse (v_a v) (v_b v) mode (Since_ms start now)))"

text \<open>
  The whole loop, driven by the cases its \<^verbatim>\<open>select\<close> takes and the instants at which
  it returns; \<open>None\<close> when the loop is still blocked after them.
\<close>

fun fanin ::
  "string \<Rightarrow> context \<Rightarrow> int \<Rightarrow> fanin_vars \<Rightarrow> (select_event \<times> int) list \<Rightarrow> int \<Rightarrow> response option" where
  "fanin mode c start v [] now =
     (if gotA v \<and> gotB v then Some (fanin_finish mode start v now) else None)"
| "fanin mode c start v ((ev, t) # evs) now =
     (if gotA v \<and> gotB v then Some (fanin_finish mode start v now)
      else (case fanin_iter mode c start v ev t of
              Inr r \<Rightarrow> Some r
            | Inl v' \<Rightarrow> fanin mode c start v' evs t))"

subsection \<open>Goroutines of one invocation\<close>

text \<open>
  Program points. The handler: not yet called, in the fan-in loop, returned. The
  goroutine of A: inside \<^verbatim>\<open>callServiceA\<close> since the given instant, about to send its
  result, gone. The goroutine of B: at the semaphore's \<^verbatim>\<open>select\<close> since the given instant
  (\<^verbatim>\<open>waitStart\<close>), inside \<^verbatim>\<open>callServiceB\<close>, about to send, body finished with the deferred
  release pending, gone.
\<close>

datatype hpc = HNew | HLoop fanin_vars | HResponded response
datatype apc = ANew | ACalling int | ASending aRes | AExit
datatype bpc = BNew | BSelect int | BCalling int | BSending bRes | BDeferred | BExit

text \<open>
  \<open>holds\<close>: the deferred release is registered. \<open>acquired\<close> and \<open>released\<close> count the
  sends to and the receives from \<^verbatim>\<open>SemB\<close> by this invocation; \<open>a_result\<close> and \<open>b_result\<close>
  remember what the two goroutines computed.
\<close>

record invocation =
  strat :: strategy
  parent_ctx :: "context"
  req_ctx :: "context"
  started :: int
  hpc :: hpc
  apc :: apc
  bpc :: bpc
  aCh :: "aRes option"
  bCh :: "bRes option"
  holds :: bool
  acquired :: nat
  released :: nat
  a_result :: "aRes option"
  b_result :: "bRes option"
  obs :: "metric list"

datatype action =
    Start bool
  | AReturn runtime | ASend
  | BAcquire | BDeny | BReturn runtime | BSend | BRelease
  | HRecvA | HRecvB | HDone | HFinish

text \<open>The handler is called at \<open>now\<close>: it derives its context, makes the two channels
  and starts the two goroutines.\<close>

definition h_start :: "Handlers \<Rightarrow> int \<Rightarrow> invocation \<Rightarrow> bool \<Rightarrow> invocation option" where
  "h_start h now iv parent_first =
     (if hpc iv = HNew then
        Some (iv\<lparr>req_ctx := (if strat iv = AsyncTimeout
                               then AsyncTimeout_ctx h (parent_ctx iv) now parent_first
                               else parent_ctx iv),
                  started := now,
                  hpc := HLoop fanin_init,
                  apc := ACalling now,
                  bpc := (if strat iv = AsyncLimited then BSelect now else BCalling now)\<rparr>)
      else None)"

text \<open>\<^verbatim>\<open>go func() { d, e := h.callServiceA(ctx); aCh <- aRes{d, e} }()\<close>: the call
  returns (observed at \<open>now\<close>, not before the instant the call gives), then the send.\<close>

definition a_return :: "int \<Rightarrow> invocation \<Rightarrow> runtime \<Rightarrow> invocation option" where
  "a_return now iv rt =
     (case apc iv of
        ACalling t0 \<Rightarrow>
          (case callServiceA (req_ctx iv) rt t0 of
             (r, t, ob) \<Rightarrow>
               if t \<le> now
               then Some (iv\<lparr>apc := ASending r, a_result := Some r, obs := obs iv @ ob\<rparr>)
               else None)
      | _ \<Rightarrow> None)"

definition a_send :: "invocation \<Rightarrow> invocation option" where
  "a_send iv =
     (case apc iv of
        ASending r \<Rightarrow>
          if aCh iv = None then Some (iv\<lparr>aCh := Some r, apc := AExit\<rparr>) else None
      | _ \<Rightarrow> None)"

text \<open>
  The goroutine of B in \<^verbatim>\<open>AsyncLimited\<close>. \<^verbatim>\<open>case h.SemB <- struct{}{}\<close> proceeds when
  the channel holds fewer elements than its capacity; the wait is recorded and the
  release deferred. \<^verbatim>\<open>case <-ctx.Done()\<close> proceeds when the context is done; the
  goroutine then only sends the context's error.
\<close>

definition b_acquire :: "Handlers \<Rightarrow> nat \<Rightarrow> int \<Rightarrow> invocation \<Rightarrow> (invocation \<times> nat) option" where
  "b_acquire h sem_len now iv =
     (case bpc iv of
        BSelect waitStart \<Rightarrow>
          if sem_len < SemB_cap h
          then Some (iv\<lparr>bpc := BCalling now, holds := True, acquired := acquired iv + 1,
                         obs := obs iv @ [SemWaitB (Since_ms waitStart now)]\<rparr>,
                     sem_len + 1)
          else None
      | _ \<Rightarrow> None)"

definition b_deny :: "int \<Rightarrow> invocation \<Rightarrow> invocation option" where
  "b_deny now iv =
     (case bpc iv of
        BSelect waitStart \<Rightarrow>
          if is_Done (req_ctx iv) now
          then Some (iv\<lparr>bpc := BSending (ServiceBData_zero, Some (Err (req_ctx iv))),
                         b_result := Some (ServiceBData_zero, Some (Err (req_ctx iv)))\<rparr>)
          else None
      | _ \<Rightarrow> None)"

text \<open>\<^verbatim>\<open>d, e := h.callServiceB(ctx)\<close>, \<^verbatim>\<open>bCh <- bRes{d, e}\<close>, and the deferred
  \<^verbatim>\<open><-h.SemB\<close>, which needs an element in the channel.\<close>

definition b_return :: "int \<Rightarrow> invocation \<Rightarrow> runtime \<Rightarrow> invocation option" where
  "b_return now iv rt =
     (case bpc iv of
        BCalling t0 \<Rightarrow>
          (case callServiceB (req_ctx iv) rt t0 of
             (r, t, ob) \<Rightarrow>
               if t \<le> now
               then Some (iv\<lparr>bpc := BSending r, b_result := Some r, obs := obs iv @ ob\<rparr>)
               else None)
      | _ \<Rightarrow> None)"

definition b_send :: "invocation \<Rightarrow> invocation option" where
  "b_send iv =
     (case bpc iv of
        BSending r \<Rightarrow>
          if bCh iv = None
          then Some (iv\<lparr>bCh := Some r, bpc := (if holds iv then BDeferred else BExit)\<rparr>)
          else None
      | _ \<Rightarrow> None)"

definition b_release :: "nat \<Rightarrow> invocation \<Rightarrow> (invocation \<times> nat) option" where
  "b_release sem_len iv =
     (case bpc iv of
        BDeferred \<Rightarrow>
          if 0 < sem_len
          then Some (iv\<lparr>bpc := BExit, released := released iv + 1\<rparr>, sem_len - 1)
          else None
      | _ \<Rightarrow> None)"

text \<open>
  The handler's loop: an iteration whose \<^verbatim>\<open>select\<close> takes the given case, which must
  be ready, and the code after the loop. On return \<^verbatim>\<open>AsyncTimeout\<close> runs its deferred
  \<^verbatim>\<open>cancel()\<close>.
\<close>

definition h_return :: "int \<Rightarrow> invocation \<Rightarrow> response \<Rightarrow> invocation" where
  "h_return now iv r =
     iv\<lparr>hpc := HResponded r,
         req_ctx := (if strat iv = AsyncTimeout then cancel (req_ctx iv) now else req_ctx iv)\<rparr>"

definition h_iter :: "int \<Rightarrow> invocation \<Rightarrow> select_event \<Rightarrow> invocation option" where
  "h_iter now iv ev =
     (case hpc iv of
        HLoop v \<Rightarrow>
          if gotA v \<and> gotB v then None
          else (case fanin_iter (mode_name (strat iv)) (req_ctx iv) (started iv) v ev now of
                  Inl v' \<Rightarrow> Some (iv\<lparr>hpc := HLoop v'\<rparr>)
                | Inr r \<Rightarrow> Some (h_return now iv r))
      | _ \<Rightarrow> None)"

definition h_recvA :: "int \<Rightarrow> invocation \<Rightarrow> invocation option" where
  "h_recvA now iv =
     (case aCh iv of
        Some r \<Rightarrow> h_iter now (iv\<lparr>aCh := None\<rparr>) (RecvA r)
      | None \<Rightarrow> None)"

definition h_recvB :: "int \<Rightarrow> invocation \<Rightarrow> invocation option" where
  "h_recvB now iv =
     (case bCh iv of
        Some r \<Rightarrow> h_iter now (iv\<lparr>bCh := None\<rparr>) (RecvB r)
      | None \<Rightarrow> None)"

definition h_done :: "int \<Rightarrow> invocation \<Rightarrow> invocation option" where
  "h_done now iv = (if is_Done (req_ctx iv) now then h_iter now iv CtxIsDone else None)"

definition h_finish :: "int \<Rightarrow> invocation \<Rightarrow> invocation option" where
  "h_finish now iv =
     (case hpc iv of
        HLoop v \<Rightarrow>
          if gotA v \<and> gotB v
          then Some (h_return now iv (fanin_finish (mode_name (strat iv)) (started iv) v now))
          else None
      | _ \<Rightarrow> None)"

text \<open>A step of one invocation; the second component is the new length of \<^verbatim>\<open>SemB\<close>.\<close>

definition keep :: "nat \<Rightarrow> invocation option \<Rightarrow> (invocation \<times> nat) option" where
  "keep sem_len r = map_option (\<lambda>iv. (iv, sem_len)) r"

fun istep :: "Handlers \<Rightarrow> nat \<Rightarrow> int \<Rightarrow> invocation \<Rightarrow> action \<Rightarrow> (invocation \<times> nat) option" where
  "istep h n now iv (Start pf) = keep n (h_start h now iv pf)"
| "istep h n now iv (AReturn rt) = keep n (a_return now iv rt)"
| "istep h n now iv ASend = keep n (a_send iv)"
| "istep h n now iv BAcquire = b_acquire h n now iv"
| "istep h n now iv BDeny = keep n (b_deny now iv)"
| "istep h n now iv (BReturn rt) = keep n (b_return now iv rt)"
| "istep h n now iv BSend = keep n (b_send iv)"
| "istep h n now iv BRelease = b_release n iv"
| "istep h n now iv HRecvA = keep n (h_recvA now iv)"
| "istep h n now iv HRecvB = keep n (h_recvB now iv)"
| "istep h n now iv HDone = keep n (h_done now iv)"
| "istep h n now iv HFinish = keep n (h_finish now iv)"

subsection \<open>The server: all invocations and the semaphore\<close>

record sys =
  clock :: int
  hcfg :: Handlers
  sem :: nat
  invs :: "invocation list"

text \<open>An event: at an instant, an invocation takes a step. Time does not run backwards.\<close>

datatype event = Ev int nat action

fun sys_step :: "sys \<Rightarrow> event \<Rightarrow> sys option" where
  "sys_step s (Ev t i act) =
     (if clock s \<le> t \<and> i < length (invs s) then
        (case istep (hcfg s) (sem s) t (invs s ! i) act of
           None \<Rightarrow> None
         | Some (iv', n') \<Rightarrow> Some (s\<lparr>clock := t, sem := n', invs := (invs s)[i := iv']\<rparr>))
      else None)"

fun sys_exec :: "sys \<Rightarrow> event list \<Rightarrow> sys option" where
  "sys_exec s [] = Some s"
| "sys_exec s (e # es) = (case sys_step s e of None \<Rightarrow> None | Some s' \<Rightarrow> sys_exec s' es)"

text \<open>A request that has not reached its handler yet, and the server after start-up
  with the requests it is going to receive (strategy and request context of each).\<close>

definition new_invocation :: "strategy \<times> context \<Rightarrow> invocation" where
  "new_invocation rq =
     \<lparr>strat = fst rq, parent_ctx = snd rq, req_ctx = snd rq, started = 0,
      hpc = HNew, apc = ANew, bpc = BNew, aCh = None, bCh = None,
      holds = False, acquired = 0, released = 0,
      a_result = None, b_result = None, obs = []\<rparr>"

definition sys_init :: "Handlers \<Rightarrow> int \<Rightarrow> (strategy \<times> context) list \<Rightarrow> sys" where
  "sys_init h t0 rqs = \<lparr>clock = t0, hcfg = h, sem = 0, invs = map new_invocation rqs\<rparr>"

subsection \<open>Invariants\<close>

text \<open>An invocation occupies a slot of the semaphore from its send to its receive.\<close>

definition occupying :: "invocation \<Rightarrow> bool" where
  "occupying iv \<longleftrightarrow> holds iv \<and> bpc iv \<noteq> BExit"

fun waiting_pc :: "bpc \<Rightarrow> bool" where
  "waiting_pc BNew = True"
| "waiting_pc (BSelect _) = True"
| "waiting_pc _ = False"

fun select_pc :: "bpc \<Rightarrow> bool" where
  "select_pc (BSelect _) = True"
| "select_pc _ = False"

definition b_ok :: "invocation \<Rightarrow> bool" where
  "b_ok iv \<longleftrightarrow>
     acquired iv = (if holds iv then 1 else 0) \<and>
     released iv = (if holds iv \<and> bpc iv = BExit then 1 else 0) \<and>
     (holds iv \<longrightarrow> strat iv = AsyncLimited \<and> \<not> waiting_pc (bpc iv)) \<and>
     (bpc iv = BDeferred \<longrightarrow> holds iv) \<and>
     (bCh iv = None \<or> bpc iv = BDeferred \<or> bpc iv = BExit) \<and>
     (hpc iv = HNew \<longleftrightarrow> bpc iv = BNew) \<and>
     (select_pc (bpc iv) \<longrightarrow> strat iv = AsyncLimited)"

text \<open>The part of an invocation that the invariant of the goroutine of B reads.\<close>

definition b_view :: "invocation \<Rightarrow> strategy \<times> bool \<times> bpc \<times> bool \<times> nat \<times> nat \<times> bool" where
  "b_view iv =
     (strat iv, hpc iv = HNew, bpc iv, holds iv, acquired iv, released iv, bCh iv = None)"

definition gate_inv :: "sys \<Rightarrow> bool" where
  "gate_inv s \<longleftrightarrow>
     sem s \<le> SemB_cap (hcfg s) \<and>
     sem s = length (filter occupying (invs s)) \<and>
     (\<forall>iv \<in> set (invs s). b_ok iv)"

text \<open>Steps the goroutine of B still has to take.\<close>

definition b_rank :: "invocation \<Rightarrow> nat" where
  "b_rank iv =
     (case bpc iv of
        BNew \<Rightarrow> 5 | BSelect _ \<Rightarrow> 4 | BCalling _ \<Rightarrow> 3 | BSending _ \<Rightarrow> (if holds iv then 2 else 1)
      | BDeferred \<Rightarrow> 1 | BExit \<Rightarrow> 0)"

definition b_action :: "action \<Rightarrow> bool" where
  "b_action act \<longleftrightarrow>
     (case act of BAcquire \<Rightarrow> True | BDeny \<Rightarrow> True | BReturn _ \<Rightarrow> True | BSend \<Rightarrow> True
      | BRelease \<Rightarrow> True | _ \<Rightarrow> False)"

subsection \<open>Invariants of the fan-in\<close>

text \<open>What a program point says about a sub-result: the result a goroutine is about to
  send, whether it has sent, and the result the loop has received.\<close>

fun sending_a :: "apc \<Rightarrow> aRes option" where
  "sending_a (ASending r) = Some r"
| "sending_a _ = None"

fun sending_b :: "bpc \<Rightarrow> bRes option" where
  "sending_b (BSending r) = Some r"
| "sending_b _ = None"

fun sent_a :: "apc \<Rightarrow> bool" where
  "sent_a AExit = True"
| "sent_a _ = False"

fun sent_b :: "bpc \<Rightarrow> bool" where
  "sent_b BDeferred = True"
| "sent_b BExit = True"
| "sent_b _ = False"

fun got_a :: "hpc \<Rightarrow> aRes option" where
  "got_a (HLoop v) = (if gotA v then Some (v_a v, v_eA v) else None)"
| "got_a _ = None"

fun got_b :: "hpc \<Rightarrow> bRes option" where
  "got_b (HLoop v) = (if gotB v then Some (v_b v, v_eB v) else None)"
| "got_b _ = None"

fun the_response :: "hpc \<Rightarrow> response option" where
  "the_response (HResponded r) = Some r"
| "the_response _ = None"

text \<open>The response composed from two sub-results at \<open>now\<close>.\<close>

definition compose :: "string \<Rightarrow> int \<Rightarrow> aRes \<Rightarrow> bRes \<Rightarrow> int \<Rightarrow> response" where
  "compose mode start ra rb now =
     (if snd ra \<noteq> None \<or> snd rb \<noteq> None then
        respondErr mode start now StatusServiceUnavailable (Errorf_AB (snd ra) (snd rb))
      else JSON StatusOK (CombinedResponse (fst ra) (fst rb) mode (Since_ms start now)))"

text \<open>A response is either the one of the cancellation case, or composed from the
  results the two goroutines computed and sent.\<close>

definition resp_ok ::
  "string \<Rightarrow> int \<Rightarrow> aRes option \<Rightarrow> bRes option \<Rightarrow> bool \<Rightarrow> bool \<Rightarrow> response \<Rightarrow> bool" where
  "resp_ok mode start ares bres asent bsent r \<longleftrightarrow>
     (\<exists>t e. r = respondErr mode start t StatusRequestTimeout e) \<or>
     (asent \<and> bsent \<and>
      (\<exists>t ra rb. ares = Some ra \<and> bres = Some rb \<and> r = compose mode start ra rb t))"

definition h_view ::
  "invocation \<Rightarrow>
   hpc \<times> apc \<times> bpc \<times> aRes option \<times> bRes option \<times> aRes option \<times> bRes option \<times> int \<times> strategy" where
  "h_view iv =
     (hpc iv, apc iv, bpc iv, aCh iv, bCh iv, a_result iv, b_result iv, started iv, strat iv)"

definition h_ok_v ::
  "hpc \<times> apc \<times> bpc \<times> aRes option \<times> bRes option \<times> aRes option \<times> bRes option \<times> int \<times> strategy
   \<Rightarrow> bool" where
  "h_ok_v vw =
     (case vw of (hp, ap, bp, ac, bc, ar, br, st, sg) \<Rightarrow>
        (hp = HNew \<longrightarrow> ap = ANew \<and> bp = BNew \<and> ac = None \<and> bc = None) \<and>
        (ac = None \<or> (ac = ar \<and> sent_a ap \<and> got_a hp = None)) \<and>
        (got_a hp = None \<or> (got_a hp = ar \<and> sent_a ap)) \<and>
        (sending_a ap = None \<or> sending_a ap = ar) \<and>
        (bc = None \<or> (bc = br \<and> sent_b bp \<and> got_b hp = None)) \<and>
        (got_b hp = None \<or> (got_b hp = br \<and> sent_b bp)) \<and>
        (sending_b bp = None \<or> sending_b bp = br) \<and>
        (the_response hp = None \<or>
           (\<exists>r. the_response hp = Some r \<and>
              resp_ok (mode_name sg) st ar br (sent_a ap) (sent_b bp) r)))"

definition h_ok :: "invocation \<Rightarrow> bool" where
  "h_ok iv \<longleftrightarrow> h_ok_v (h_view iv)"

definition fanin_inv :: "sys \<Rightarrow> bool" where
  "fanin_inv s \<longleftrightarrow> (\<forall>iv \<in> set (invs s). h_ok iv)"


definition h_action :: "action \<Rightarrow> bool" where
  "h_action act \<longleftrightarrow>
     (case act of HRecvA \<Rightarrow> True | HRecvB \<Rightarrow> True | HDone \<Rightarrow> True | HFinish \<Rightarrow> True
      | _ \<Rightarrow> False)"

section \<open>Example runs\<close>

text \<open>Contexts, runtime contributions and a configuration used in the examples below:
  a context that is never done, one cancelled 100 ms, one 200 ms after the start;
  calls of A sleeping 50 ms and 100 ms; calls of B sleeping 300 ms and failing.\<close>

definition ctx_never :: "context" where
  "ctx_never = \<lparr>Done_at = None, Err = Canceled\<rparr>"

definition ctx_100ms :: "context" where
  "ctx_100ms = \<lparr>Done_at = Some 100000000, Err = Canceled\<rparr>"

definition ctx_200ms :: "context" where
  "ctx_200ms = \<lparr>Done_at = Some 200000000, Err = Canceled\<rparr>"

definition rt_A50 :: runtime where
  "rt_A50 = \<lparr>Float64 = 1 / 2, Intn = (\<lambda>_. 0), pick_timer = True\<rparr>"

definition rt_A100 :: runtime where
  "rt_A100 = \<lparr>Float64 = 1 / 2, Intn = (\<lambda>_. 50), pick_timer = True\<rparr>"

definition rt_B300 :: runtime where
  "rt_B300 = \<lparr>Float64 = 1 / 2, Intn = (\<lambda>_. 0), pick_timer = True\<rparr>"

definition rt_Bfail :: runtime where
  "rt_Bfail = \<lparr>Float64 = 1 / 100, Intn = (\<lambda>_. 0), pick_timer = True\<rparr>"

definition h_example :: Handlers where
  "h_example = \<lparr>SemB_cap = 1, TimeoutMs = 600\<rparr>"

text \<open>An unbounded invocation in which both results arrive.\<close>

definition run_async_received :: "event list" where
  "run_async_received =
     [Ev 0 0 (Start True),
      Ev 100000000 0 (AReturn rt_A100), Ev 100000000 0 ASend, Ev 100000000 0 HRecvA,
      Ev 300000000 0 (BReturn rt_B300), Ev 300000000 0 BSend, Ev 300000000 0 HRecvB]"

definition run_async_ok :: "event list" where
  "run_async_ok = run_async_received @ [Ev 300000000 0 HFinish]"

text \<open>
  Two bounded invocations and a semaphore of capacity one. The first takes the slot. The
  second is cancelled by its caller after 100 ms while its goroutine of B still waits for
  the slot; A has returned after 50 ms. The goroutine of B sends the context's error, and
  the loop's \<^verbatim>\<open>select\<close>, for which both the result channel and \<^verbatim>\<open>ctx.Done()\<close> are ready,
  takes the result channel.
\<close>

definition run_limited_cancelled :: "event list" where
  "run_limited_cancelled =
     [Ev 0 0 (Start True), Ev 0 0 BAcquire, Ev 0 1 (Start True),
      Ev 50000000 1 (AReturn rt_A50), Ev 50000000 1 ASend, Ev 50000000 1 HRecvA,
      Ev 100000000 1 BDeny, Ev 100000000 1 BSend, Ev 100000000 1 HRecvB,
      Ev 100000000 1 HFinish]"

text \<open>
  An unbounded invocation whose caller cancels one nanosecond after B's result has been
  sent: A's result is received after 100 ms, B's result is in its channel after 300 ms,
  and the loop runs its next \<^verbatim>\<open>select\<close> only when \<^verbatim>\<open>ctx.Done()\<close> is ready too.
\<close>

definition ctx_300ms_1ns :: "context" where
  "ctx_300ms_1ns = \<lparr>Done_at = Some 300000001, Err = Canceled\<rparr>"

definition run_both_ready :: "event list" where
  "run_both_ready =
     [Ev 0 0 (Start True),
      Ev 100000000 0 (AReturn rt_A100), Ev 100000000 0 ASend, Ev 100000000 0 HRecvA,
      Ev 300000000 0 (BReturn rt_B300), Ev 300000000 0 BSend]"

text \<open>Of an invocation after a run: the handler's program point, the two result
  channels, the results the goroutines computed, and the clock.\<close>

fun fanin_state ::
  "nat \<Rightarrow> sys option \<Rightarrow> (hpc \<times> aRes option \<times> bRes option \<times> aRes option \<times> bRes option \<times> int) option" where
  "fanin_state i None = None"
| "fanin_state i (Some s) =
     Some (hpc (invs s ! i), aCh (invs s ! i), bCh (invs s ! i),
           a_result (invs s ! i), b_result (invs s ! i), clock s)"

section \<open>Properties of the in-flight counters\<close>

lemma filter_count_update:
  "i < length xs \<Longrightarrow>
   length (filter P (xs[i := y])) + (if P (xs ! i) then 1 else 0) =
   length (filter P xs) + (if P y then 1 else 0)"
proof (induction xs arbitrary: i)
  case Nil
  then show ?case by simp
next
  case (Cons x xs)
  show ?case
  proof (cases i)
    case 0
    then show ?thesis by simp
  next
    case (Suc j)
    then have "j < length xs" using Cons.prems by simp
    from Cons.IH[OF this] show ?thesis using Suc by simp
  qed
qed

lemma sint_of_nat_nonneg:
  assumes "n < 2 ^ 63"
  shows "0 \<le> sint (of_nat n :: 64 word)"
proof -
  have "sint (of_nat n :: 64 word) = signed_take_bit 63 (int n)"
    by (simp add: signed_of_nat)
  also have "\<dots> = int n"
    using assms by (intro signed_take_bit_int_eq_self) auto
  finally show ?thesis by simp
qed

lemma inflight_value_Inc:
  "inflight_value (IncInflight m e) e' = inflight_value m e' + (if e' = e then 1 else 0)"
  by (simp add: inflight_value_def IncInflight_def LoadOrStore_def split: option.splits)

lemma IncInflight_dom: "dom (IncInflight m e) = insert e (dom m)"
  by (auto simp: IncInflight_def LoadOrStore_def split: option.splits)

lemma inflight_value_Dec:
  "e \<in> dom m \<Longrightarrow>
   inflight_value (DecInflight m e) e' = inflight_value m e' - (if e' = e then 1 else 0)"
  by (auto simp add: inflight_value_def DecInflight_def split: option.splits)

lemma DecInflight_dom: "dom (DecInflight m e) = dom m"
  by (auto simp: DecInflight_def split: option.splits if_splits)

lemma minv_enter:
  assumes "minv s" "Instrument_enter s i = Some s'"
  shows "minv s'"
proof -
  from assms(2) have i: "i < length (reqs s)" and new: "rpc (reqs s ! i) = RNew"
    by (auto simp: Instrument_enter_def split: if_splits)
  define r where "r = reqs s ! i"
  define r' where "r' = r\<lparr>rpc := RInHandler, incs := incs r + 1\<rparr>"
  have inf: "inflight s' = IncInflight (inflight s) (endpoint r)"
    and rq: "reqs s' = (reqs s)[i := r']"
    using assms(2) i new by (auto simp: Instrument_enter_def Let_def r_def r'_def)
  have rok: "req_ok r" using assms(1) i by (simp add: minv_def r_def)
  have r'ok: "req_ok r'" using rok new by (simp add: req_ok_def r'_def r_def)
  have cnt: "in_handler s' e = in_handler s e + (if e = endpoint r then 1 else 0)" for e
    using filter_count_update[OF i, of "\<lambda>r. endpoint r = e \<and> rpc r = RInHandler" r'] new
    by (auto simp: rq r'_def r_def in_handler_def)
  have 1: "\<forall>x \<in> set (reqs s'). req_ok x"
    using assms(1) r'ok by (auto simp: rq minv_def dest!: set_update_subset_insert[THEN subsetD])
  have 2: "inflight_value (inflight s') e = of_nat (in_handler s' e)" for e
    using assms(1) by (simp add: cnt inflight_value_Inc inf minv_def)
  have 3: "0 < in_handler s' e \<longrightarrow> e \<in> dom (inflight s')" for e
    using assms(1) cnt[of e] by (simp add: inf minv_def IncInflight_dom split: if_splits)
  show ?thesis unfolding minv_def using 1 2 3 by blast
qed

lemma minv_leave:
  assumes "minv s" "Instrument_leave s i out = Some s'"
  shows "minv s'"
proof -
  from assms(2) have i: "i < length (reqs s)" and run: "rpc (reqs s ! i) = RInHandler"
    by (auto simp: Instrument_leave_def split: if_splits)
  define r where "r = reqs s ! i"
  define r' where "r' = r\<lparr>rpc := RFinished, decs := decs r + 1\<rparr>"
  have inf: "inflight s' = DecInflight (inflight s) (endpoint r)"
    and rq: "reqs s' = (reqs s)[i := r']"
    using assms(2) i run by (auto simp: Instrument_leave_def Let_def r_def r'_def)
  have rok: "req_ok r" using assms(1) i by (simp add: minv_def r_def)
  have r'ok: "req_ok r'" using rok run by (simp add: req_ok_def r'_def r_def)
  have cnt: "in_handler s' e + (if e = endpoint r then 1 else 0) = in_handler s e" for e
    using filter_count_update[OF i, of "\<lambda>r. endpoint r = e \<and> rpc r = RInHandler" r'] run
    by (auto simp: rq r'_def r_def in_handler_def)
  have pos: "0 < in_handler s (endpoint r)"
    using cnt[of "endpoint r"] by simp
  then have ex: "endpoint r \<in> dom (inflight s)"
    using assms(1) by (simp add: minv_def)
  have 1: "\<forall>x \<in> set (reqs s'). req_ok x"
    using assms(1) r'ok by (auto simp: rq minv_def dest!: set_update_subset_insert[THEN subsetD])
  have 2: "inflight_value (inflight s') e = of_nat (in_handler s' e)" for e
  proof -
    have "inflight_value (inflight s') e = of_nat (in_handler s e) - (if e = endpoint r then 1 else 0)"
      using assms(1) by (simp add: inf inflight_value_Dec[OF ex] minv_def)
    also have "in_handler s e = in_handler s' e + (if e = endpoint r then 1 else 0)"
      using cnt[of e] by simp
    finally show ?thesis by simp
  qed
  have 3: "0 < in_handler s' e \<longrightarrow> e \<in> dom (inflight s')" for e
    using assms(1) cnt[of e] by (simp add: inf minv_def DecInflight_dom split: if_splits)
  show ?thesis unfolding minv_def using 1 2 3 by blast
qed

lemma minv_exec: "minv s \<Longrightarrow> mexec s evs = Some s' \<Longrightarrow> minv s'"
proof (induction evs arbitrary: s)
  case Nil
  then show ?case by simp
next
  case (Cons e evs)
  then obtain s1 where s1: "mstep s e = Some s1" and rest: "mexec s1 evs = Some s'"
    by (auto split: option.splits)
  have "minv s1"
    using Cons.prems(1) s1 by (cases e) (auto intro: minv_enter minv_leave)
  then show ?case using Cons.IH rest by blast
qed

lemma minv_init: "minv (minit eps)"
  by (auto simp: minv_def minit_def req_ok_def in_handler_def inflight_value_def)

lemma mstep_length: "mstep s e = Some s' \<Longrightarrow> length (reqs s') = length (reqs s)"
  by (cases e) (auto simp: Instrument_enter_def Instrument_leave_def Let_def split: if_splits)

lemma mexec_length: "mexec s evs = Some s' \<Longrightarrow> length (reqs s') = length (reqs s)"
  by (induction evs arbitrary: s) (auto split: option.splits dest: mstep_length)

lemma in_handler_le: "in_handler s e \<le> length (reqs s)"
  by (simp add: in_handler_def)

text \<open>
  Claim C7. Starting from the empty map of \<^verbatim>\<open>NewMetrics\<close>, under every interleaving
  of request lifecycles: each request has incremented its endpoint's counter exactly
  once as soon as it has started and decremented it exactly once when it has finished,
  whatever the handler's outcome (a response of any status, or a panic), never
  decrementing before its own increment; the counter of an endpoint equals the number
  of its requests inside the handler, so it is back at its earlier value once a request
  has left, and it is never negative (with fewer than \<open>2 ^ 63\<close> requests). For any
  map, an increment followed by a decrement leaves every counter's value unchanged.
\<close>

theorem Instrument_inflight_balanced:
  assumes "mexec (minit eps) evs = Some s" and "length eps < 2 ^ 63"
  shows "(\<forall>r \<in> set (reqs s).
            incs r = (if rpc r = RNew then 0 else 1) \<and>
            decs r = (if rpc r = RFinished then 1 else 0) \<and> decs r \<le> incs r) \<and>
         (\<forall>e. inflight_value (inflight s) e = of_nat (in_handler s e) \<and>
              0 \<le> sint (inflight_value (inflight s) e)) \<and>
         (\<forall>m e e'. inflight_value (DecInflight (IncInflight m e) e) e' = inflight_value m e')"
proof -
  have inv: "minv s" using minv_exec[OF minv_init assms(1)] .
  have len: "length (reqs s) = length eps"
    using mexec_length[OF assms(1)] by (simp add: minit_def)
  have a: "\<forall>r \<in> set (reqs s).
            incs r = (if rpc r = RNew then 0 else 1) \<and>
            decs r = (if rpc r = RFinished then 1 else 0) \<and> decs r \<le> incs r"
    using inv by (auto simp: minv_def req_ok_def)
  have b: "inflight_value (inflight s) e = of_nat (in_handler s e) \<and>
           0 \<le> sint (inflight_value (inflight s) e)" for e
  proof -
    have "in_handler s e < 2 ^ 63"
      using in_handler_le[of s e] len assms(2) by simp
    then show ?thesis using inv sint_of_nat_nonneg by (simp add: minv_def)
  qed
  have c: "inflight_value (DecInflight (IncInflight m e) e) e' = inflight_value m e'" for m e e'
    by (simp add: inflight_value_Dec IncInflight_dom inflight_value_Inc)
  show ?thesis using a b c by blast
qed

text \<open>
  Claim C10. For an endpoint without an entry, \<^verbatim>\<open>DecInflight\<close> leaves the whole map
  unchanged, and \<^verbatim>\<open>IncInflight\<close> first stores an entry of value zero
  (\<^verbatim>\<open>LoadOrStore\<close>) and then adds one to it.
\<close>

theorem inflight_missing_entry:
  assumes "m ep = None"
  shows "DecInflight m ep = m \<and>
         fst (LoadOrStore m ep 0) = m(ep \<mapsto> 0) \<and>
         IncInflight m ep = m(ep \<mapsto> 0 + 1)"
  using assms by (simp add: DecInflight_def IncInflight_def LoadOrStore_def)

theorem inflight_missing_entry_witness:
  "DecInflight Map.empty ''sync'' = Map.empty \<and>
   fst (LoadOrStore Map.empty ''sync'' 0) = [''sync'' \<mapsto> 0] \<and>
   IncInflight Map.empty ''sync'' = [''sync'' \<mapsto> 1]"
  using inflight_missing_entry[of Map.empty "''sync''"] by simp

theorem Instrument_inflight_balanced_witness:
  "length [''sync'', ''sync'', ''async''] < 2 ^ 63 \<and>
   (case mexec (minit [''sync'', ''sync'', ''async''])
           [Enter 0, Enter 1, Leave 0 (Returned 408), Enter 2, Leave 2 Panicked] of
      None \<Rightarrow> False
    | Some s \<Rightarrow>
        inflight_value (inflight s) ''sync'' = 1 \<and>
        inflight_value (inflight s) ''async'' = 0 \<and>
        0 \<le> sint (inflight_value (inflight s) ''sync'') \<and>
        map decs (reqs s) = [1, 0, 1])"
proof -
  obtain s where s:
    "mexec (minit [''sync'', ''sync'', ''async''])
       [Enter 0, Enter 1, Leave 0 (Returned 408), Enter 2, Leave 2 Panicked] = Some s"
    by (simp add: minit_def Instrument_enter_def Instrument_leave_def Let_def)
  have h: "in_handler s ''sync'' = 1 \<and> in_handler s ''async'' = 0"
    using s by (auto simp: in_handler_def minit_def Instrument_enter_def Instrument_leave_def Let_def)
  have d: "map decs (reqs s) = [1, 0, 1]"
    using s by (auto simp: minit_def Instrument_enter_def Instrument_leave_def Let_def)
  show ?thesis
    unfolding s using Instrument_inflight_balanced[OF s] h d by simp
qed

section \<open>Properties of the services, the sequential handler and the configuration\<close>

lemma int64_id: "- (2 ^ 63) \<le> x \<Longrightarrow> x < 2 ^ 63 \<Longrightarrow> int64 x = x"
  unfolding int64_def by (rule signed_take_bit_int_eq_self) simp_all

lemma Duration_ms_small: "- 9000000000000 \<le> ms \<Longrightarrow> ms \<le> 9000000000000 \<Longrightarrow> Duration_ms ms = ms * 1000000"
  unfolding Duration_ms_def Millisecond_def by (rule int64_id) simp_all

lemma select_timer_first:
  "0 \<le> d \<Longrightarrow> (case Done_at ctx of None \<Rightarrow> True | Some t \<Rightarrow> now + d < t) \<Longrightarrow>
   select_After_Done now d ctx pick = (TimerFired, now + d)"
  by (auto simp: select_After_Done_def Let_def split: option.splits)

lemma select_done_first:
  "Done_at ctx = Some t \<Longrightarrow> max now t < now + d \<Longrightarrow>
   select_After_Done now d ctx pick = (CtxDone, max now t)"
  by (auto simp: select_After_Done_def Let_def split: option.splits)

text \<open>
  Claim C4. A call of \<^verbatim>\<open>ServiceB\<close> whose context is not yet done: when the draw of
  \<^verbatim>\<open>rand.Float64()\<close> is below 0.05 it returns the simulated failure at the instant of the
  call; otherwise the delay is \<open>300 + rand.Intn(901)\<close> milliseconds, between 300 and 1200,
  each of these values coming from exactly one draw, and the call returns the payload
  \<^verbatim>\<open>data-from-B\<close> with that delay when the delay is over, unless the context is done
  earlier, in which case it returns the context's error at that earlier instant.
\<close>

theorem ServiceB_profile:
  assumes live: "\<not> is_Done ctx now"
      and k: "0 \<le> Intn rt 901" "Intn rt 901 < 901"
  shows "(Float64 rt < 5 / 100 \<longrightarrow>
            ServiceB ctx rt now =
              ((ServiceBData_zero, Some (ErrorString ''service B simulated failure'')), now)) \<and>
         (\<not> Float64 rt < 5 / 100 \<longrightarrow>
            (let ms = randRange 300 1200 rt; timer = now + ms * Millisecond in
             300 \<le> ms \<and> ms \<le> 1200 \<and>
             ((case Done_at ctx of None \<Rightarrow> True | Some t \<Rightarrow> timer < t) \<longrightarrow>
                ServiceB ctx rt now =
                  ((\<lparr>b_Value = ''data-from-B'', b_SleepMs = ms\<rparr>, None), timer)) \<and>
             (\<forall>t. Done_at ctx = Some t \<and> t < timer \<longrightarrow>
                ServiceB ctx rt now = ((ServiceBData_zero, Some (Err ctx)), t)))) \<and>
         (\<forall>ms. 300 \<le> ms \<and> ms \<le> 1200 \<longrightarrow>
            (\<exists>!d. 0 \<le> d \<and> d < 901 \<and> randRange 300 1200 (rt\<lparr>Intn := \<lambda>_. d\<rparr>) = ms))"
proof -
  define ms where "ms = randRange 300 1200 rt"
  have ms: "300 \<le> ms" "ms \<le> 1200" using k by (simp_all add: ms_def randRange_def)
  have d: "Duration_ms ms = ms * Millisecond"
    using ms by (simp add: Duration_ms_small Millisecond_def)
  have 1: "Float64 rt < 5 / 100 \<longrightarrow>
            ServiceB ctx rt now =
              ((ServiceBData_zero, Some (ErrorString ''service B simulated failure'')), now)"
    by (simp add: ServiceB_def)
  have 2: "ServiceB ctx rt now =
             ((\<lparr>b_Value = ''data-from-B'', b_SleepMs = ms\<rparr>, None), now + ms * Millisecond)"
    if "\<not> Float64 rt < 5 / 100" "case Done_at ctx of None \<Rightarrow> True | Some t \<Rightarrow> now + ms * Millisecond < t"
  proof -
    have "select_After_Done now (ms * Millisecond) ctx (pick_timer rt) = (TimerFired, now + ms * Millisecond)"
      using that(2) ms by (intro select_timer_first) (simp_all add: Millisecond_def)
    then show ?thesis using that(1) by (simp add: ServiceB_def ms_def[symmetric] d)
  qed
  have 3: "ServiceB ctx rt now = ((ServiceBData_zero, Some (Err ctx)), t)"
    if "\<not> Float64 rt < 5 / 100" "Done_at ctx = Some t" "t < now + ms * Millisecond" for t
  proof -
    have "now < t" using live that(2) by (simp add: is_Done_def)
    then have "select_After_Done now (ms * Millisecond) ctx (pick_timer rt) = (CtxDone, t)"
      using select_done_first[OF that(2), of now "ms * Millisecond"] that(3) by (simp add: max_def)
    then show ?thesis using that(1) by (simp add: ServiceB_def ms_def[symmetric] d)
  qed
  have 4: "\<exists>!d. 0 \<le> d \<and> d < 901 \<and> randRange 300 1200 (rt\<lparr>Intn := \<lambda>_. d\<rparr>) = m"
    if "300 \<le> m" "m \<le> 1200" for m
  proof (rule ex1I[of _ "m - 300"])
    show "0 \<le> m - 300 \<and> m - 300 < 901 \<and> randRange 300 1200 (rt\<lparr>Intn := \<lambda>_. m - 300\<rparr>) = m"
      using that by (simp add: randRange_def)
  next
    fix d assume "0 \<le> d \<and> d < 901 \<and> randRange 300 1200 (rt\<lparr>Intn := \<lambda>_. d\<rparr>) = m"
    then show "d = m - 300" by (simp add: randRange_def)
  qed
  show ?thesis
    unfolding Let_def ms_def[symmetric] using 1 2 3 4 ms by blast
qed

theorem ServiceB_profile_witness:
  "\<not> is_Done \<lparr>Done_at = Some 500000000, Err = DeadlineExceeded\<rparr> 0 \<and>
   ServiceB \<lparr>Done_at = Some 500000000, Err = DeadlineExceeded\<rparr>
      \<lparr>Float64 = 1 / 100, Intn = (\<lambda>_. 100), pick_timer = True\<rparr> 0 =
     ((ServiceBData_zero, Some (ErrorString ''service B simulated failure'')), 0) \<and>
   ServiceB \<lparr>Done_at = Some 500000000, Err = DeadlineExceeded\<rparr>
      \<lparr>Float64 = 1 / 2, Intn = (\<lambda>_. 100), pick_timer = True\<rparr> 0 =
     ((\<lparr>b_Value = ''data-from-B'', b_SleepMs = 400\<rparr>, None), 400000000) \<and>
   ServiceB \<lparr>Done_at = Some 500000000, Err = DeadlineExceeded\<rparr>
      \<lparr>Float64 = 1 / 2, Intn = (\<lambda>_. 900), pick_timer = True\<rparr> 0 =
     ((ServiceBData_zero, Some DeadlineExceeded), 500000000)"
  using ServiceB_profile[of "\<lparr>Done_at = Some 500000000, Err = DeadlineExceeded\<rparr>" 0
          "\<lparr>Float64 = 1 / 100, Intn = (\<lambda>_. 100), pick_timer = True\<rparr>"]
        ServiceB_profile[of "\<lparr>Done_at = Some 500000000, Err = DeadlineExceeded\<rparr>" 0
          "\<lparr>Float64 = 1 / 2, Intn = (\<lambda>_. 100), pick_timer = True\<rparr>"]
        ServiceB_profile[of "\<lparr>Done_at = Some 500000000, Err = DeadlineExceeded\<rparr>" 0
          "\<lparr>Float64 = 1 / 2, Intn = (\<lambda>_. 900), pick_timer = True\<rparr>"]
  by (simp add: is_Done_def randRange_def Millisecond_def Let_def)

text \<open>
  Claim C9. A call of \<^verbatim>\<open>ServiceB\<close> whose context is already done at entry: the draw
  is evaluated first, so below 0.05 the call returns the simulated failure and not the
  context's error; only for the other draws does it return the context's error.
\<close>

theorem ServiceB_error_draw_precedes_deadline:
  assumes expired: "is_Done ctx now"
  shows "(Float64 rt < 5 / 100 \<longrightarrow>
            ServiceB ctx rt now =
              ((ServiceBData_zero, Some (ErrorString ''service B simulated failure'')), now)) \<and>
         (\<not> Float64 rt < 5 / 100 \<and> 0 \<le> Intn rt 901 \<and> Intn rt 901 < 901 \<longrightarrow>
            ServiceB ctx rt now = ((ServiceBData_zero, Some (Err ctx)), now))"
proof -
  from expired obtain t where t: "Done_at ctx = Some t" "t \<le> now"
    by (auto simp: is_Done_def split: option.splits)
  have "ServiceB ctx rt now = ((ServiceBData_zero, Some (Err ctx)), now)"
    if "\<not> Float64 rt < 5 / 100" "0 \<le> Intn rt 901" "Intn rt 901 < 901"
  proof -
    define ms where "ms = randRange 300 1200 rt"
    have ms: "300 \<le> ms" "ms \<le> 1200" using that by (simp_all add: ms_def randRange_def)
    have d: "Duration_ms ms = ms * 1000000"
      using ms by (simp add: Duration_ms_small)
    have "select_After_Done now (ms * 1000000) ctx (pick_timer rt) = (CtxDone, max now t)"
      using ms t by (intro select_done_first) simp_all
    then show ?thesis using that(1) t by (simp add: ServiceB_def ms_def[symmetric] d max_def)
  qed
  then show ?thesis by (simp add: ServiceB_def)
qed

theorem ServiceB_error_draw_precedes_deadline_witness:
  "is_Done \<lparr>Done_at = Some 0, Err = Canceled\<rparr> 7 \<and>
   ServiceB \<lparr>Done_at = Some 0, Err = Canceled\<rparr>
      \<lparr>Float64 = 1 / 100, Intn = (\<lambda>_. 100), pick_timer = False\<rparr> 7 =
     ((ServiceBData_zero, Some (ErrorString ''service B simulated failure'')), 7) \<and>
   ServiceB \<lparr>Done_at = Some 0, Err = Canceled\<rparr>
      \<lparr>Float64 = 1 / 2, Intn = (\<lambda>_. 100), pick_timer = False\<rparr> 7 =
     ((ServiceBData_zero, Some Canceled), 7)"
  using ServiceB_error_draw_precedes_deadline[of "\<lparr>Done_at = Some 0, Err = Canceled\<rparr>" 7
          "\<lparr>Float64 = 1 / 100, Intn = (\<lambda>_. 100), pick_timer = False\<rparr>"]
        ServiceB_error_draw_precedes_deadline[of "\<lparr>Done_at = Some 0, Err = Canceled\<rparr>" 7
          "\<lparr>Float64 = 1 / 2, Intn = (\<lambda>_. 100), pick_timer = False\<rparr>"]
  by (simp add: is_Done_def)

lemma calls_callServiceA:
  "callServiceA ctx rt start = (r, t, ob) \<Longrightarrow> calls ''A'' ob = 1 \<and> calls ''B'' ob = 0"
  by (auto simp: callServiceA_def split: prod.splits)

lemma calls_callServiceB:
  "callServiceB ctx rt start = (r, t, ob) \<Longrightarrow> calls ''B'' ob = 1 \<and> calls ''A'' ob = 0"
  by (auto simp: callServiceB_def split: prod.splits)

lemma calls_append: "calls svc (xs @ ys) = calls svc xs + calls svc ys"
  by (induction svc xs rule: calls.induct) simp_all

text \<open>
  Claim C2. When \<^verbatim>\<open>callServiceA\<close> returns an error, \<^verbatim>\<open>Sync\<close> responds at that
  instant with this error and \<^verbatim>\<open>ServiceB\<close> has not been called; when it returns none,
  \<^verbatim>\<open>ServiceB\<close> is called once, after A has returned, and the response, given when B
  has returned, is B's error or else the two payloads.
\<close>

theorem Sync_short_circuit:
  assumes A: "callServiceA ctx rtA start = ((a, errA), t1, obsA)"
      and B: "callServiceB ctx rtB t1 = ((b, errB), t2, obsB)"
  shows "(\<forall>e. errA = Some e \<longrightarrow>
            Sync ctx rtA rtB start = (respondErr ''sync'' start t1 StatusRequestTimeout e, obsA) \<and>
            calls ''B'' (snd (Sync ctx rtA rtB start)) = 0) \<and>
         (errA = None \<longrightarrow>
            calls ''A'' (snd (Sync ctx rtA rtB start)) = 1 \<and>
            calls ''B'' (snd (Sync ctx rtA rtB start)) = 1 \<and>
            (\<forall>e. errB = Some e \<longrightarrow>
               Sync ctx rtA rtB start =
                 (respondErr ''sync'' start t2 StatusServiceUnavailable e, obsA @ obsB)) \<and>
            (errB = None \<longrightarrow>
               Sync ctx rtA rtB start =
                 (JSON StatusOK (CombinedResponse a b ''sync'' (Since_ms start t2)), obsA @ obsB)))"
  using calls_callServiceA[OF A] calls_callServiceB[OF B]
  by (auto simp: Sync_def A B calls_append split: option.splits)

theorem Sync_short_circuit_witness:
  "Sync \<lparr>Done_at = Some 5, Err = Canceled\<rparr>
        \<lparr>Float64 = 1 / 2, Intn = (\<lambda>_. 50), pick_timer = True\<rparr>
        \<lparr>Float64 = 1 / 2, Intn = (\<lambda>_. 0), pick_timer = True\<rparr> 0 =
     (JSON 408 (ErrorResponse ''sync'' 0 ''context canceled''),
      [ServiceDuration ''A'' 0, ServiceErrors ''A'']) \<and>
   calls ''B'' (snd (Sync \<lparr>Done_at = Some 5, Err = Canceled\<rparr>
        \<lparr>Float64 = 1 / 2, Intn = (\<lambda>_. 50), pick_timer = True\<rparr>
        \<lparr>Float64 = 1 / 2, Intn = (\<lambda>_. 0), pick_timer = True\<rparr> 0)) = 0 \<and>
   Sync \<lparr>Done_at = None, Err = Canceled\<rparr>
        \<lparr>Float64 = 1 / 2, Intn = (\<lambda>_. 50), pick_timer = True\<rparr>
        \<lparr>Float64 = 1 / 2, Intn = (\<lambda>_. 0), pick_timer = True\<rparr> 0 =
     (JSON 200 (CombinedResponse \<lparr>a_Value = ''data-from-A'', a_SleepMs = 100\<rparr>
                  \<lparr>b_Value = ''data-from-B'', b_SleepMs = 300\<rparr> ''sync'' 400),
      [ServiceDuration ''A'' 100, ServiceDuration ''B'' 300])"
proof -
  let ?rtA = "\<lparr>Float64 = 1 / 2, Intn = (\<lambda>_. 50), pick_timer = True\<rparr>"
  let ?rtB = "\<lparr>Float64 = 1 / 2, Intn = (\<lambda>_. 0), pick_timer = True\<rparr>"
  let ?c1 = "\<lparr>Done_at = Some 5, Err = Canceled\<rparr>"
  let ?c2 = "\<lparr>Done_at = None, Err = Canceled\<rparr>"
  have dA: "Duration_ms 100 = 100000000" and dB: "Duration_ms 300 = 300000000"
    by (simp_all add: Duration_ms_small)
  have s1: "Since_ms 0 5 = 0" "Since_ms 0 100000000 = 100" "Since_ms 100000000 400000000 = 300"
    "Since_ms 0 400000000 = 400"
    by (simp_all add: Since_ms_def int64_id quo_def Millisecond_def)
  have A1: "callServiceA ?c1 ?rtA 0 =
              ((ServiceAData_zero, Some Canceled), 5, [ServiceDuration ''A'' 0, ServiceErrors ''A''])"
    by (simp add: callServiceA_def ServiceA_def randRange_def dA select_After_Done_def s1)
  have B1: "callServiceB ?c1 ?rtB 5 =
              ((ServiceBData_zero, Some Canceled), 5, [ServiceDuration ''B'' 0, ServiceErrors ''B''])"
    by (simp add: callServiceB_def ServiceB_def randRange_def dB select_After_Done_def
        Since_ms_def int64_id quo_def Millisecond_def)
  have A2: "callServiceA ?c2 ?rtA 0 =
              ((\<lparr>a_Value = ''data-from-A'', a_SleepMs = 100\<rparr>, None), 100000000,
               [ServiceDuration ''A'' 100])"
    by (simp add: callServiceA_def ServiceA_def randRange_def dA select_After_Done_def s1)
  have B2: "callServiceB ?c2 ?rtB 100000000 =
              ((\<lparr>b_Value = ''data-from-B'', b_SleepMs = 300\<rparr>, None), 400000000,
               [ServiceDuration ''B'' 300])"
    by (simp add: callServiceB_def ServiceB_def randRange_def dB select_After_Done_def s1)
  show ?thesis
    using Sync_short_circuit[OF A1 B1] Sync_short_circuit[OF A2 B2]
    by (simp add: respondErr_def StatusRequestTimeout_def StatusOK_def s1)
qed






section \<open>Properties of the concurrent handlers\<close>

subsection \<open>The semaphore\<close>

lemma b_view_cong:
  "b_view iv' = b_view iv \<Longrightarrow>
   b_ok iv' = b_ok iv \<and> occupying iv' = occupying iv \<and> holds iv' = holds iv"
  by (simp add: b_view_def b_ok_def occupying_def)

lemma h_iter_view: "h_iter t iv ev = Some iv' \<Longrightarrow> b_view iv' = b_view iv"
  by (auto simp: b_view_def h_iter_def h_return_def split: hpc.splits if_splits sum.splits)

lemma h_start_view:
  "h_start h t iv pf = Some iv' \<Longrightarrow>
   hpc iv = HNew \<and>
   b_view iv' = (strat iv, False, (if strat iv = AsyncLimited then BSelect t else BCalling t),
                 holds iv, acquired iv, released iv, bCh iv = None)"
  by (auto simp: b_view_def h_start_def split: if_splits)

lemma a_return_view: "a_return t iv rt = Some iv' \<Longrightarrow> b_view iv' = b_view iv"
  by (auto simp: b_view_def a_return_def split: apc.splits prod.splits if_splits)

lemma a_send_view: "a_send iv = Some iv' \<Longrightarrow> b_view iv' = b_view iv"
  by (auto simp: b_view_def a_send_def split: apc.splits if_splits)

lemma h_recvA_view: "h_recvA t iv = Some iv' \<Longrightarrow> b_view iv' = b_view iv"
  by (auto simp: h_recvA_def b_view_def split: option.splits dest!: h_iter_view)

lemma h_recvB_view:
  "h_recvB t iv = Some iv' \<Longrightarrow>
   b_view iv' = (strat iv, hpc iv = HNew, bpc iv, holds iv, acquired iv, released iv, True)"
  by (auto simp: h_recvB_def b_view_def split: option.splits dest!: h_iter_view)

lemma h_done_view: "h_done t iv = Some iv' \<Longrightarrow> b_view iv' = b_view iv"
  by (auto simp: h_done_def split: if_splits dest!: h_iter_view)

lemma h_finish_view: "h_finish t iv = Some iv' \<Longrightarrow> b_view iv' = b_view iv"
  by (auto simp: b_view_def h_finish_def h_return_def split: hpc.splits if_splits)

lemma b_acquire_view:
  "b_acquire h n t iv = Some (iv', n') \<Longrightarrow>
   (\<exists>w. bpc iv = BSelect w) \<and> n < SemB_cap h \<and> n' = n + 1 \<and>
   b_view iv' = (strat iv, hpc iv = HNew, BCalling t, True, acquired iv + 1, released iv,
                 bCh iv = None)"
  by (auto simp: b_view_def b_acquire_def split: bpc.splits if_splits)

lemma b_deny_view:
  "b_deny t iv = Some iv' \<Longrightarrow>
   (\<exists>w r. bpc iv = BSelect w \<and>
      b_view iv' = (strat iv, hpc iv = HNew, BSending r, holds iv, acquired iv, released iv,
                    bCh iv = None))"
  by (auto simp: b_view_def b_deny_def split: bpc.splits if_splits)

lemma b_return_view:
  "b_return t iv rt = Some iv' \<Longrightarrow>
   (\<exists>t0 r. bpc iv = BCalling t0 \<and>
      b_view iv' = (strat iv, hpc iv = HNew, BSending r, holds iv, acquired iv, released iv,
                    bCh iv = None))"
  by (auto simp: b_view_def b_return_def split: bpc.splits prod.splits if_splits)

lemma b_send_view:
  "b_send iv = Some iv' \<Longrightarrow>
   (\<exists>r. bpc iv = BSending r) \<and> bCh iv = None \<and>
   b_view iv' = (strat iv, hpc iv = HNew, (if holds iv then BDeferred else BExit),
                 holds iv, acquired iv, released iv, False)"
  by (auto simp: b_view_def b_send_def split: bpc.splits if_splits)

lemma b_release_view:
  "b_release n iv = Some (iv', n') \<Longrightarrow>
   bpc iv = BDeferred \<and> 0 < n \<and> n' = n - 1 \<and>
   b_view iv' = (strat iv, hpc iv = HNew, BExit, holds iv, acquired iv, released iv + 1,
                 bCh iv = None)"
  by (auto simp: b_view_def b_release_def split: bpc.splits if_splits)

lemmas b_view_unfold = b_view_def b_ok_def occupying_def

text \<open>Every step keeps the invariant of the invocation, keeps the bound, and changes the
  length of the channel exactly as it changes whether the invocation occupies a slot.\<close>

lemma istep_gate:
  assumes st: "istep h n t iv act = Some (iv', n')" and ok: "b_ok iv"
  shows "b_ok iv' \<and>
         n' + (if occupying iv then 1 else 0) = n + (if occupying iv' then 1 else 0) \<and>
         (n \<le> SemB_cap h \<longrightarrow> n' \<le> SemB_cap h) \<and>
         (holds iv \<longrightarrow> holds iv')"
proof -
  have same: ?thesis if "b_view iv' = b_view iv" "n' = n"
    using b_view_cong[OF that(1)] ok that(2) by simp
  show ?thesis
  proof (cases act)
    case (Start pf)
    then have "h_start h t iv pf = Some iv'" "n' = n"
      using st by (auto simp: keep_def)
    from h_start_view[OF this(1)] ok \<open>n' = n\<close> show ?thesis
      by (auto simp: b_view_unfold)
  next
    case (AReturn rt)
    then have "a_return t iv rt = Some iv'" "n' = n" using st by (auto simp: keep_def)
    then show ?thesis using same a_return_view by blast
  next
    case ASend
    then have "a_send iv = Some iv'" "n' = n" using st by (auto simp: keep_def)
    then show ?thesis using same a_send_view by blast
  next
    case BAcquire
    then have "b_acquire h n t iv = Some (iv', n')" using st by simp
    from b_acquire_view[OF this] obtain w where
      "bpc iv = BSelect w" "n < SemB_cap h" "n' = n + 1"
      "b_view iv' = (strat iv, hpc iv = HNew, BCalling t, True, acquired iv + 1, released iv,
                 bCh iv = None)"
      by blast
    with ok show ?thesis
      by (simp add: b_view_unfold)
  next
    case BDeny
    then have "b_deny t iv = Some iv'" "n' = n" using st by (auto simp: keep_def)
    from b_deny_view[OF this(1)] obtain w r where
      "bpc iv = BSelect w"
      "b_view iv' = (strat iv, hpc iv = HNew, BSending r, holds iv, acquired iv, released iv,
                    bCh iv = None)"
      by blast
    with ok \<open>n' = n\<close> show ?thesis
      by (simp add: b_view_unfold)
  next
    case (BReturn rt)
    then have "b_return t iv rt = Some iv'" "n' = n" using st by (auto simp: keep_def)
    from b_return_view[OF this(1)] obtain t0 r where
      "bpc iv = BCalling t0"
      "b_view iv' = (strat iv, hpc iv = HNew, BSending r, holds iv, acquired iv, released iv,
                    bCh iv = None)"
      by blast
    with ok \<open>n' = n\<close> show ?thesis
      by (simp add: b_view_unfold)
  next
    case BSend
    then have "b_send iv = Some iv'" "n' = n" using st by (auto simp: keep_def)
    from b_send_view[OF this(1)] obtain r where
      "bpc iv = BSending r" "bCh iv = None"
      "b_view iv' = (strat iv, hpc iv = HNew, (if holds iv then BDeferred else BExit),
                 holds iv, acquired iv, released iv, False)"
      by blast
    with ok \<open>n' = n\<close> show ?thesis
      by (simp add: b_view_unfold)
  next
    case BRelease
    then have "b_release n iv = Some (iv', n')" using st by simp
    from b_release_view[OF this] have
      "bpc iv = BDeferred" "0 < n" "n' = n - 1"
      "b_view iv' = (strat iv, hpc iv = HNew, BExit, holds iv, acquired iv, released iv + 1,
                 bCh iv = None)"
      by blast+
    with ok show ?thesis
      by (auto simp: b_view_unfold)
  next
    case HRecvA
    then have "h_recvA t iv = Some iv'" "n' = n" using st by (auto simp: keep_def)
    then show ?thesis using same h_recvA_view by blast
  next
    case HRecvB
    then have "h_recvB t iv = Some iv'" "n' = n" using st by (auto simp: keep_def)
    from h_recvB_view[OF this(1)] ok \<open>n' = n\<close> show ?thesis
      by (simp add: b_view_unfold)
  next
    case HDone
    then have "h_done t iv = Some iv'" "n' = n" using st by (auto simp: keep_def)
    then show ?thesis using same h_done_view by blast
  next
    case HFinish
    then have "h_finish t iv = Some iv'" "n' = n" using st by (auto simp: keep_def)
    then show ?thesis using same h_finish_view by blast
  qed
qed

lemma sys_step_gate:
  assumes "sys_step s e = Some s'" and "gate_inv s"
  shows "gate_inv s'"
proof -
  obtain t i act where e: "e = Ev t i act" by (cases e)
  from assms(1) obtain iv' n' where
    i: "i < length (invs s)" and
    st: "istep (hcfg s) (sem s) t (invs s ! i) act = Some (iv', n')" and
    s': "s' = s\<lparr>clock := t, sem := n', invs := (invs s)[i := iv']\<rparr>"
    by (auto simp: e split: if_splits option.splits)
  have ok: "b_ok (invs s ! i)" using assms(2) i by (simp add: gate_inv_def)
  note g = istep_gate[OF st ok]
  have cap: "sem s' \<le> SemB_cap (hcfg s')"
    using g assms(2) by (simp add: s' gate_inv_def)
  have cnt: "sem s' = length (filter occupying (invs s'))"
    using filter_count_update[OF i, of occupying iv'] g assms(2)
    by (simp add: s' gate_inv_def split: if_splits)
  have all: "\<forall>iv \<in> set (invs s'). b_ok iv"
    using assms(2) g by (auto simp: s' gate_inv_def dest!: set_update_subset_insert[THEN subsetD])
  show ?thesis unfolding gate_inv_def using cap cnt all by blast
qed

lemma sys_exec_gate: "gate_inv s \<Longrightarrow> sys_exec s evs = Some s' \<Longrightarrow> gate_inv s'"
proof (induction evs arbitrary: s)
  case Nil
  then show ?case by simp
next
  case (Cons e evs)
  then obtain s1 where s1: "sys_step s e = Some s1" and rest: "sys_exec s1 evs = Some s'"
    by (auto split: option.splits)
  from sys_step_gate[OF s1 Cons.prems(1)] Cons.IH rest show ?case by blast
qed

lemma filter_occupying_new: "filter occupying (map new_invocation rqs) = []"
  by (induction rqs) (simp_all add: occupying_def new_invocation_def)

lemma gate_inv_init: "gate_inv (sys_init h t0 rqs)"
  by (auto simp: gate_inv_def sys_init_def filter_occupying_new b_ok_def new_invocation_def)

lemma sys_step_hcfg: "sys_step s e = Some s' \<Longrightarrow> hcfg s' = hcfg s"
  by (cases e) (auto split: if_splits option.splits)

lemma sys_exec_hcfg: "sys_exec s evs = Some s' \<Longrightarrow> hcfg s' = hcfg s"
  by (induction evs arbitrary: s) (auto split: option.splits dest: sys_step_hcfg)


subsection \<open>Progress of the goroutine of B\<close>

lemma b_rank_step:
  assumes "istep h n t iv act = Some (iv', n')" and "b_action act"
  shows "b_rank iv' < b_rank iv"
proof (cases act)
  case BAcquire
  then show ?thesis using assms
    by (auto simp: b_rank_def b_acquire_def split: bpc.splits if_splits)
next
  case BDeny
  then show ?thesis using assms
    by (auto simp: b_rank_def b_deny_def keep_def split: bpc.splits if_splits)
next
  case (BReturn rt)
  then show ?thesis using assms
    by (auto simp: b_rank_def b_return_def keep_def split: bpc.splits if_splits prod.splits)
next
  case BSend
  then show ?thesis using assms
    by (auto simp: b_rank_def b_send_def keep_def split: bpc.splits if_splits)
next
  case BRelease
  then show ?thesis using assms
    by (auto simp: b_rank_def b_release_def split: bpc.splits if_splits)
qed (use assms in \<open>simp_all add: b_action_def\<close>)

lemma filter_pos: "i < length xs \<Longrightarrow> P (xs ! i) \<Longrightarrow> 0 < length (filter P xs)"
  by (metis filter_empty_conv length_greater_0_conv nth_mem)

lemma occupying_cases:
  assumes "occupying iv" "b_ok iv"
  shows "(\<exists>t0. bpc iv = BCalling t0) \<or> (\<exists>r. bpc iv = BSending r \<and> bCh iv = None) \<or>
         bpc iv = BDeferred"
  using assms by (cases "bpc iv") (auto simp: occupying_def b_ok_def)

text \<open>An invocation that occupies a slot is never blocked: whatever the runtime
  contributes to the call, one of its next steps can be taken.\<close>

lemma occupying_enabled:
  assumes inv: "gate_inv s" and i: "i < length (invs s)" and occ: "occupying (invs s ! i)"
  shows "\<exists>t act. (act = BReturn rt \<or> act = BSend \<or> act = BRelease) \<and>
                 sys_step s (Ev t i act) \<noteq> None"
proof -
  let ?iv = "invs s ! i"
  have ok: "b_ok ?iv" using inv i by (simp add: gate_inv_def)
  have pos: "0 < sem s" using inv filter_pos[of i "invs s" occupying, OF i occ] by (simp add: gate_inv_def)
  from occupying_cases[OF occ ok] consider
    (call) t0 where "bpc ?iv = BCalling t0" |
    (send) r where "bpc ?iv = BSending r" "bCh ?iv = None" |
    (rel) "bpc ?iv = BDeferred"
    by blast
  then show ?thesis
  proof cases
    case call
    obtain r t ob where c: "callServiceB (req_ctx ?iv) rt t0 = (r, t, ob)"
      by (cases "callServiceB (req_ctx ?iv) rt t0") auto
    have "sys_step s (Ev (max t (clock s)) i (BReturn rt)) \<noteq> None"
      using i call c by (simp add: b_return_def keep_def)
    then show ?thesis by blast
  next
    case send
    have "sys_step s (Ev (clock s) i BSend) \<noteq> None"
      using i send by (simp add: b_send_def keep_def)
    then show ?thesis by blast
  next
    case rel
    have "sys_step s (Ev (clock s) i BRelease) \<noteq> None"
      using i rel pos by (simp add: b_release_def)
    then show ?thesis by blast
  qed
qed

lemma sys_step_b_rank:
  assumes "sys_step s (Ev t i act) = Some s'" and "b_action act"
  shows "b_rank (invs s' ! i) < b_rank (invs s ! i)"
proof -
  from assms(1) obtain iv' n' where
    i: "i < length (invs s)" and
    st: "istep (hcfg s) (sem s) t (invs s ! i) act = Some (iv', n')" and
    s': "invs s' = (invs s)[i := iv']"
    by (auto split: if_splits option.splits)
  from b_rank_step[OF st assms(2)] show ?thesis using i by (simp add: s')
qed

lemma sys_step_other:
  "sys_step s (Ev t j act) = Some s' \<Longrightarrow> j \<noteq> i \<Longrightarrow> invs s' ! i = invs s ! i"
  by (auto split: if_splits option.splits)

lemma b_ok_counts:
  assumes "b_ok iv"
  shows "acquired iv \<le> 1 \<and> released iv \<le> acquired iv \<and>
         (occupying iv \<longleftrightarrow> acquired iv = 1 \<and> released iv = 0) \<and>
         (bpc iv = BExit \<longrightarrow> released iv = acquired iv) \<and>
         (\<not> holds iv \<longrightarrow> acquired iv = 0 \<and> released iv = 0) \<and>
         (acquired iv = 1 \<longrightarrow> strat iv = AsyncLimited)"
  using assms by (auto simp: b_ok_def occupying_def split: if_splits)


lemma sys_step_holds:
  assumes "sys_step s (Ev t i act) = Some s'" and "gate_inv s" and "holds (invs s ! i)"
  shows "holds (invs s' ! i)"
proof -
  from assms(1) obtain iv' n' where
    i: "i < length (invs s)" and
    st: "istep (hcfg s) (sem s) t (invs s ! i) act = Some (iv', n')" and
    s': "invs s' = (invs s)[i := iv']"
    by (auto split: if_splits option.splits)
  have ok: "b_ok (invs s ! i)" using assms(2) i by (simp add: gate_inv_def)
  from istep_gate[OF st ok] assms(3) show ?thesis using i by (simp add: s')
qed

lemma occupying_rank: "occupying iv \<Longrightarrow> b_ok iv \<Longrightarrow> b_rank iv \<le> 3"
  by (cases "bpc iv") (auto simp: occupying_def b_ok_def b_rank_def)

text \<open>
  Claim C1. In every state the server can reach, whatever the interleaving of the
  invocations: the number of elements in \<^verbatim>\<open>SemB\<close> is at most its capacity and equals
  the number of invocations between their send to the channel and their receive from
  it; an invocation sends at most once, never receives without having sent, has received
  exactly as often as it has sent when its goroutine is gone, and neither sends nor
  receives when it was turned away at the \<^verbatim>\<open>select\<close>. An invocation that occupies a
  slot is never blocked (its call returns, its result channel has room, the semaphore
  holds an element to receive), every step of its goroutine brings it nearer to the
  end, at most three steps away, and keeps the release registered; this holds whether
  or not the handler has returned, and whether or not the context is done.
\<close>

theorem gate_bounded_and_released:
  assumes "sys_exec (sys_init h t0 rqs) evs = Some s"
  shows "sem s \<le> SemB_cap h \<and>
         sem s = length (filter occupying (invs s)) \<and>
         (\<forall>iv \<in> set (invs s).
            acquired iv \<le> 1 \<and> released iv \<le> acquired iv \<and>
            (occupying iv \<longleftrightarrow> acquired iv = 1 \<and> released iv = 0) \<and>
            (bpc iv = BExit \<longrightarrow> released iv = acquired iv) \<and>
            (\<not> holds iv \<longrightarrow> acquired iv = 0 \<and> released iv = 0) \<and>
            (acquired iv = 1 \<longrightarrow> strat iv = AsyncLimited)) \<and>
         (\<forall>i < length (invs s). occupying (invs s ! i) \<longrightarrow>
            b_rank (invs s ! i) \<le> 3 \<and>
            (\<forall>rt. \<exists>t act. (act = BReturn rt \<or> act = BSend \<or> act = BRelease) \<and>
                        sys_step s (Ev t i act) \<noteq> None) \<and>
            (\<forall>t act s'. b_action act \<and> sys_step s (Ev t i act) = Some s' \<longrightarrow>
                 b_rank (invs s' ! i) < b_rank (invs s ! i) \<and> holds (invs s' ! i)))"
proof -
  have g: "gate_inv s"
    using sys_exec_gate[OF gate_inv_init assms] .
  have h: "hcfg s = h"
    using sys_exec_hcfg[OF assms] by (simp add: sys_init_def)
  have 1: "sem s \<le> SemB_cap h" "sem s = length (filter occupying (invs s))"
    using g h by (simp_all add: gate_inv_def)
  have 2: "\<forall>iv \<in> set (invs s).
            acquired iv \<le> 1 \<and> released iv \<le> acquired iv \<and>
            (occupying iv \<longleftrightarrow> acquired iv = 1 \<and> released iv = 0) \<and>
            (bpc iv = BExit \<longrightarrow> released iv = acquired iv) \<and>
            (\<not> holds iv \<longrightarrow> acquired iv = 0 \<and> released iv = 0) \<and>
            (acquired iv = 1 \<longrightarrow> strat iv = AsyncLimited)"
    using g b_ok_counts unfolding gate_inv_def by blast
  have 3: "b_rank (invs s ! i) \<le> 3 \<and>
            (\<forall>rt. \<exists>t act. (act = BReturn rt \<or> act = BSend \<or> act = BRelease) \<and>
                        sys_step s (Ev t i act) \<noteq> None) \<and>
            (\<forall>t act s'. b_action act \<and> sys_step s (Ev t i act) = Some s' \<longrightarrow>
                 b_rank (invs s' ! i) < b_rank (invs s ! i) \<and> holds (invs s' ! i))"
    if i: "i < length (invs s)" and occ: "occupying (invs s ! i)" for i
  proof -
    have ok: "b_ok (invs s ! i)" using g i by (simp add: gate_inv_def)
    have hd: "holds (invs s ! i)" using occ by (simp add: occupying_def)
    show ?thesis
      using occupying_rank[OF occ ok] occupying_enabled[OF g i occ]
        sys_step_b_rank sys_step_holds[OF _ g hd]
      by blast
  qed
  show ?thesis using 1 2 3 by blast
qed

theorem gate_bounded_and_released_witness:
  "(case sys_exec
      (sys_init \<lparr>SemB_cap = 1, TimeoutMs = 600\<rparr> 0
         [(AsyncLimited, \<lparr>Done_at = None, Err = Canceled\<rparr>),
          (AsyncLimited, \<lparr>Done_at = Some 5, Err = Canceled\<rparr>)])
      [Ev 0 0 (Start True), Ev 0 1 (Start True), Ev 0 0 BAcquire, Ev 5 1 BDeny] of
      None \<Rightarrow> False
    | Some s \<Rightarrow>
        sem s = 1 \<and> sem s \<le> 1 \<and> map acquired (invs s) = [1, 0] \<and>
        map occupying (invs s) = [True, False] \<and>
        length (filter occupying (invs s)) = 1)"
proof -
  obtain s where s:
    "sys_exec
      (sys_init \<lparr>SemB_cap = 1, TimeoutMs = 600\<rparr> 0
         [(AsyncLimited, \<lparr>Done_at = None, Err = Canceled\<rparr>),
          (AsyncLimited, \<lparr>Done_at = Some 5, Err = Canceled\<rparr>)])
      [Ev 0 0 (Start True), Ev 0 1 (Start True), Ev 0 0 BAcquire, Ev 5 1 BDeny] = Some s"
    by (simp add: sys_init_def new_invocation_def keep_def h_start_def b_acquire_def b_deny_def
        is_Done_def)
  have a: "map acquired (invs s) = [1, 0]" "map occupying (invs s) = [True, False]" "sem s = 1"
    using s
    by (auto simp: sys_init_def new_invocation_def keep_def h_start_def b_acquire_def b_deny_def
        is_Done_def occupying_def)
  note b = gate_bounded_and_released[OF s, THEN conjunct1]
    gate_bounded_and_released[OF s, THEN conjunct2, THEN conjunct1]
  show ?thesis
    unfolding s using a b by simp
qed

subsection \<open>The fan-in\<close>

lemma a_return_eff:
  "a_return t iv rt = Some iv' \<Longrightarrow>
   \<exists>t0 r. apc iv = ACalling t0 \<and>
     h_view iv' = (hpc iv, ASending r, bpc iv, aCh iv, bCh iv, Some r, b_result iv,
                   started iv, strat iv)"
  by (auto simp: h_view_def a_return_def split: apc.splits prod.splits if_splits)

lemma a_send_eff:
  "a_send iv = Some iv' \<Longrightarrow>
   \<exists>r. apc iv = ASending r \<and> aCh iv = None \<and>
     h_view iv' = (hpc iv, AExit, bpc iv, Some r, bCh iv, a_result iv, b_result iv,
                   started iv, strat iv)"
  by (auto simp: h_view_def a_send_def split: apc.splits if_splits)

lemma h_start_eff:
  "h_start h t iv pf = Some iv' \<Longrightarrow>
   hpc iv = HNew \<and>
   h_view iv' = (HLoop fanin_init, ACalling t,
                 (if strat iv = AsyncLimited then BSelect t else BCalling t),
                 aCh iv, bCh iv, a_result iv, b_result iv, t, strat iv)"
  by (auto simp: h_view_def h_start_def split: if_splits)

lemma b_acquire_eff:
  "b_acquire h n t iv = Some (iv', n') \<Longrightarrow>
   \<exists>w. bpc iv = BSelect w \<and>
     h_view iv' = (hpc iv, apc iv, BCalling t, aCh iv, bCh iv, a_result iv, b_result iv,
                   started iv, strat iv)"
  by (auto simp: h_view_def b_acquire_def split: bpc.splits if_splits)

lemma b_deny_eff:
  "b_deny t iv = Some iv' \<Longrightarrow>
   \<exists>w r. bpc iv = BSelect w \<and>
     h_view iv' = (hpc iv, apc iv, BSending r, aCh iv, bCh iv, a_result iv, Some r,
                   started iv, strat iv)"
  by (auto simp: h_view_def b_deny_def split: bpc.splits if_splits)

lemma b_return_eff:
  "b_return t iv rt = Some iv' \<Longrightarrow>
   \<exists>t0 r. bpc iv = BCalling t0 \<and>
     h_view iv' = (hpc iv, apc iv, BSending r, aCh iv, bCh iv, a_result iv, Some r,
                   started iv, strat iv)"
  by (auto simp: h_view_def b_return_def split: bpc.splits prod.splits if_splits)

lemma b_send_eff:
  "b_send iv = Some iv' \<Longrightarrow>
   \<exists>r p. bpc iv = BSending r \<and> bCh iv = None \<and> (p = BDeferred \<or> p = BExit) \<and>
     h_view iv' = (hpc iv, apc iv, p, aCh iv, Some r, a_result iv, b_result iv,
                   started iv, strat iv)"
  by (auto simp: h_view_def b_send_def split: bpc.splits if_splits)

lemma b_release_eff:
  "b_release n iv = Some (iv', n') \<Longrightarrow>
   bpc iv = BDeferred \<and>
     h_view iv' = (hpc iv, apc iv, BExit, aCh iv, bCh iv, a_result iv, b_result iv,
                   started iv, strat iv)"
  by (auto simp: h_view_def b_release_def split: bpc.splits if_splits)

lemma h_recvA_eff:
  "h_recvA t iv = Some iv' \<Longrightarrow>
   \<exists>v d e. hpc iv = HLoop v \<and> \<not> (gotA v \<and> gotB v) \<and> aCh iv = Some (d, e) \<and>
     h_view iv' = (HLoop (v\<lparr>v_a := d, v_eA := e, gotA := True\<rparr>), apc iv, bpc iv, None, bCh iv,
                   a_result iv, b_result iv, started iv, strat iv)"
  by (auto simp: h_view_def h_recvA_def h_iter_def fanin_iter_def
      split: option.splits hpc.splits if_splits)

lemma h_recvB_eff:
  "h_recvB t iv = Some iv' \<Longrightarrow>
   \<exists>v d e. hpc iv = HLoop v \<and> \<not> (gotA v \<and> gotB v) \<and> bCh iv = Some (d, e) \<and>
     h_view iv' = (HLoop (v\<lparr>v_b := d, v_eB := e, gotB := True\<rparr>), apc iv, bpc iv, aCh iv, None,
                   a_result iv, b_result iv, started iv, strat iv)"
  by (auto simp: h_view_def h_recvB_def h_iter_def fanin_iter_def
      split: option.splits hpc.splits if_splits)

lemma h_done_eff:
  "h_done t iv = Some iv' \<Longrightarrow>
   \<exists>v. hpc iv = HLoop v \<and> \<not> (gotA v \<and> gotB v) \<and> is_Done (req_ctx iv) t \<and>
     h_view iv' =
       (HResponded (respondErr (mode_name (strat iv)) (started iv) t StatusRequestTimeout
                      (Err (req_ctx iv))),
        apc iv, bpc iv, aCh iv, bCh iv, a_result iv, b_result iv, started iv, strat iv)"
  by (auto simp: h_view_def h_done_def h_iter_def fanin_iter_def h_return_def
      split: hpc.splits if_splits)

lemma h_finish_eff:
  "h_finish t iv = Some iv' \<Longrightarrow>
   \<exists>v. hpc iv = HLoop v \<and> gotA v \<and> gotB v \<and>
     h_view iv' =
       (HResponded (fanin_finish (mode_name (strat iv)) (started iv) v t),
        apc iv, bpc iv, aCh iv, bCh iv, a_result iv, b_result iv, started iv, strat iv)"
  by (auto simp: h_view_def h_finish_def h_return_def split: hpc.splits if_splits)


lemma respondErr_408: "\<exists>t' e'. respondErr m st t StatusRequestTimeout e = respondErr m st t' StatusRequestTimeout e'"
  by blast

lemma finish_compose:
  "fanin_finish m st v t = compose m st (v_a v, v_eA v) (v_b v, v_eB v) t"
  by (simp add: fanin_finish_def compose_def)

lemma resp_ok_sent:
  "resp_ok m st ar br False bs r \<Longrightarrow> resp_ok m st ar' br' as' bs' r"
  "resp_ok m st ar br as False r \<Longrightarrow> resp_ok m st ar' br' as' bs' r"
  by (auto simp: resp_ok_def)

lemma istep_h_ok:
  assumes st: "istep h n t iv act = Some (iv', n')" and ok: "h_ok iv"
  shows "h_ok iv'"
proof -
  note ok' = ok[unfolded h_ok_def h_view_def h_ok_v_def, simplified]
  show ?thesis
  proof (cases act)
    case (Start pf)
    then have "h_start h t iv pf = Some iv'" using st by (auto simp: keep_def)
    from h_start_eff[OF this] ok' show ?thesis
      by (simp add: h_ok_def h_ok_v_def fanin_init_def)
  next
    case (AReturn rt)
    then have "a_return t iv rt = Some iv'" using st by (auto simp: keep_def)
    from a_return_eff[OF this] obtain t0 r where
      "apc iv = ACalling t0"
      "h_view iv' = (hpc iv, ASending r, bpc iv, aCh iv, bCh iv, Some r, b_result iv,
                   started iv, strat iv)"
      by blast
    with ok' show ?thesis
      by (auto simp: h_ok_def h_ok_v_def intro: resp_ok_sent)
  next
    case ASend
    then have "a_send iv = Some iv'" using st by (auto simp: keep_def)
    from a_send_eff[OF this] obtain r where
      "apc iv = ASending r" "aCh iv = None"
      "h_view iv' = (hpc iv, AExit, bpc iv, Some r, bCh iv, a_result iv, b_result iv,
                   started iv, strat iv)"
      by blast
    with ok' show ?thesis
      by (auto simp: h_ok_def h_ok_v_def intro: resp_ok_sent)
  next
    case BAcquire
    then have "b_acquire h n t iv = Some (iv', n')" using st by simp
    from b_acquire_eff[OF this] obtain w where
      "bpc iv = BSelect w"
      "h_view iv' = (hpc iv, apc iv, BCalling t, aCh iv, bCh iv, a_result iv, b_result iv,
                   started iv, strat iv)"
      by blast
    with ok' show ?thesis
      by (auto simp: h_ok_def h_ok_v_def intro: resp_ok_sent)
  next
    case BDeny
    then have "b_deny t iv = Some iv'" using st by (auto simp: keep_def)
    from b_deny_eff[OF this] obtain w r where
      "bpc iv = BSelect w"
      "h_view iv' = (hpc iv, apc iv, BSending r, aCh iv, bCh iv, a_result iv, Some r,
                   started iv, strat iv)"
      by blast
    with ok' show ?thesis
      by (auto simp: h_ok_def h_ok_v_def intro: resp_ok_sent)
  next
    case (BReturn rt)
    then have "b_return t iv rt = Some iv'" using st by (auto simp: keep_def)
    from b_return_eff[OF this] obtain t0 r where
      "bpc iv = BCalling t0"
      "h_view iv' = (hpc iv, apc iv, BSending r, aCh iv, bCh iv, a_result iv, Some r,
                   started iv, strat iv)"
      by blast
    with ok' show ?thesis
      by (auto simp: h_ok_def h_ok_v_def intro: resp_ok_sent)
  next
    case BSend
    then have "b_send iv = Some iv'" using st by (auto simp: keep_def)
    from b_send_eff[OF this] obtain r p where
      "bpc iv = BSending r" "bCh iv = None" "p = BDeferred \<or> p = BExit"
      "h_view iv' = (hpc iv, apc iv, p, aCh iv, Some r, a_result iv, b_result iv,
                   started iv, strat iv)"
      by blast
    with ok' show ?thesis
      by (auto simp: h_ok_def h_ok_v_def intro: resp_ok_sent)
  next
    case BRelease
    then have "b_release n iv = Some (iv', n')" using st by simp
    from b_release_eff[OF this] have
      "bpc iv = BDeferred"
      "h_view iv' = (hpc iv, apc iv, BExit, aCh iv, bCh iv, a_result iv, b_result iv,
                   started iv, strat iv)"
      by blast+
    with ok' show ?thesis
      by (auto simp: h_ok_def h_ok_v_def)
  next
    case HRecvA
    then have "h_recvA t iv = Some iv'" using st by (auto simp: keep_def)
    from h_recvA_eff[OF this] obtain v d e where
      "hpc iv = HLoop v" "\<not> (gotA v \<and> gotB v)" "aCh iv = Some (d, e)"
      "h_view iv' = (HLoop (v\<lparr>v_a := d, v_eA := e, gotA := True\<rparr>), apc iv, bpc iv, None, bCh iv,
                   a_result iv, b_result iv, started iv, strat iv)"
      by blast
    with ok' show ?thesis
      by (auto simp: h_ok_def h_ok_v_def)
  next
    case HRecvB
    then have "h_recvB t iv = Some iv'" using st by (auto simp: keep_def)
    from h_recvB_eff[OF this] obtain v d e where
      "hpc iv = HLoop v" "\<not> (gotA v \<and> gotB v)" "bCh iv = Some (d, e)"
      "h_view iv' = (HLoop (v\<lparr>v_b := d, v_eB := e, gotB := True\<rparr>), apc iv, bpc iv, aCh iv, None,
                   a_result iv, b_result iv, started iv, strat iv)"
      by blast
    with ok' show ?thesis
      by (auto simp: h_ok_def h_ok_v_def)
  next
    case HDone
    then have "h_done t iv = Some iv'" using st by (auto simp: keep_def)
    from h_done_eff[OF this] obtain v where
      "hpc iv = HLoop v"
      "h_view iv' =
       (HResponded (respondErr (mode_name (strat iv)) (started iv) t StatusRequestTimeout
                      (Err (req_ctx iv))),
        apc iv, bpc iv, aCh iv, bCh iv, a_result iv, b_result iv, started iv, strat iv)"
      by blast
    with ok' show ?thesis
      by (auto simp: h_ok_def h_ok_v_def resp_ok_def)
  next
    case HFinish
    then have "h_finish t iv = Some iv'" using st by (auto simp: keep_def)
    from h_finish_eff[OF this] obtain v where
      v: "hpc iv = HLoop v" "gotA v" "gotB v" and
      vw: "h_view iv' =
       (HResponded (fanin_finish (mode_name (strat iv)) (started iv) v t),
        apc iv, bpc iv, aCh iv, bCh iv, a_result iv, b_result iv, started iv, strat iv)"
      by blast
    have ar: "a_result iv = Some (v_a v, v_eA v)" "sent_a (apc iv)"
      and br: "b_result iv = Some (v_b v, v_eB v)" "sent_b (bpc iv)"
      using ok' v by auto
    have r: "resp_ok (mode_name (strat iv)) (started iv) (a_result iv) (b_result iv) True True
               (fanin_finish (mode_name (strat iv)) (started iv) v t)"
      unfolding resp_ok_def finish_compose using ar br by blast
    show ?thesis
      using ok' v ar br r by (simp add: h_ok_def h_ok_v_def vw)
  qed
qed


lemma sys_step_fanin:
  assumes "sys_step s e = Some s'" and "fanin_inv s"
  shows "fanin_inv s'"
proof -
  obtain t i act where e: "e = Ev t i act" by (cases e)
  from assms(1) obtain iv' n' where
    i: "i < length (invs s)" and
    st: "istep (hcfg s) (sem s) t (invs s ! i) act = Some (iv', n')" and
    s': "invs s' = (invs s)[i := iv']"
    by (auto simp: e split: if_splits option.splits)
  have ok: "h_ok (invs s ! i)" using assms(2) i by (simp add: fanin_inv_def)
  from istep_h_ok[OF st ok] assms(2) show ?thesis
    by (auto simp: s' fanin_inv_def dest!: set_update_subset_insert[THEN subsetD])
qed

lemma sys_exec_fanin: "fanin_inv s \<Longrightarrow> sys_exec s evs = Some s' \<Longrightarrow> fanin_inv s'"
proof (induction evs arbitrary: s)
  case Nil
  then show ?case by simp
next
  case (Cons e evs)
  then obtain s1 where s1: "sys_step s e = Some s1" and rest: "sys_exec s1 evs = Some s'"
    by (auto split: option.splits)
  from sys_step_fanin[OF s1 Cons.prems(1)] Cons.IH rest show ?case by blast
qed

lemma fanin_inv_init: "fanin_inv (sys_init h t0 rqs)"
  by (auto simp: fanin_inv_def sys_init_def h_ok_def h_ok_v_def h_view_def new_invocation_def)

subsection \<open>Progress of the handler\<close>



text \<open>The loop is never blocked once both results are in or the context is done.\<close>

lemma handler_enabled:
  assumes i: "i < length (invs s)" and l: "hpc (invs s ! i) = HLoop v" and t: "clock s \<le> t"
  shows "(gotA v \<and> gotB v \<longrightarrow> sys_step s (Ev t i HFinish) \<noteq> None) \<and>
         (\<not> (gotA v \<and> gotB v) \<and> is_Done (req_ctx (invs s ! i)) t \<longrightarrow>
            sys_step s (Ev t i HDone) \<noteq> None)"
  using assms
  by (auto simp: keep_def h_finish_def h_done_def h_iter_def fanin_iter_def)




lemma fanin_AB:
  "fanin mode c start fanin_init [(RecvA ra, t1), (RecvB rb, t2)] t0 =
     Some (compose mode start ra rb t2)"
  by (cases ra; cases rb) (simp add: fanin_init_def fanin_iter_def fanin_finish_def compose_def)

lemma fanin_BA:
  "fanin mode c start fanin_init [(RecvB rb, t1), (RecvA ra, t2)] t0 =
     Some (compose mode start ra rb t2)"
  by (cases ra; cases rb) (simp add: fanin_init_def fanin_iter_def fanin_finish_def compose_def)

lemma h_ok_responded:
  assumes "h_ok iv" and "hpc iv = HResponded r"
  shows "(\<exists>t e. r = respondErr (mode_name (strat iv)) (started iv) t StatusRequestTimeout e) \<or>
         (\<exists>t ra rb. a_result iv = Some ra \<and> b_result iv = Some rb \<and>
            r = compose (mode_name (strat iv)) (started iv) ra rb t)"
  using assms unfolding h_ok_def h_view_def h_ok_v_def resp_ok_def by auto


section \<open>Example runs of the handlers\<close>

lemma Since_ms_small:
  "start \<le> now \<Longrightarrow> now - start < 2 ^ 63 \<Longrightarrow> Since_ms start now = (now - start) div 1000000"
  by (simp add: Since_ms_def int64_id quo_def Millisecond_def)

lemmas step_defs = keep_def h_start_def a_return_def a_send_def b_acquire_def b_deny_def
  b_return_def b_send_def b_release_def h_recvA_def h_recvB_def h_done_def h_finish_def
  h_iter_def h_return_def fanin_iter_def fanin_finish_def fanin_init_def

lemmas service_defs = callServiceA_def ServiceA_def callServiceB_def ServiceB_def randRange_def
  Duration_ms_small select_After_Done_def Since_ms_small

lemma ex_callA50:
  "callServiceA ctx_100ms rt_A50 0 =
     ((\<lparr>a_Value = ''data-from-A'', a_SleepMs = 50\<rparr>, None), 50000000, [ServiceDuration ''A'' 50])"
  by (simp add: service_defs rt_A50_def ctx_100ms_def)

lemma ex_callA100:
  "callServiceA ctx_never rt_A100 0 =
     ((\<lparr>a_Value = ''data-from-A'', a_SleepMs = 100\<rparr>, None), 100000000,
      [ServiceDuration ''A'' 100])"
  by (simp add: service_defs rt_A100_def ctx_never_def)

lemma ex_callA100':
  "callServiceA ctx_200ms rt_A100 0 =
     ((\<lparr>a_Value = ''data-from-A'', a_SleepMs = 100\<rparr>, None), 100000000,
      [ServiceDuration ''A'' 100])"
  by (simp add: service_defs rt_A100_def ctx_200ms_def)

lemma ex_callB300:
  "callServiceB ctx_never rt_B300 0 =
     ((\<lparr>b_Value = ''data-from-B'', b_SleepMs = 300\<rparr>, None), 300000000,
      [ServiceDuration ''B'' 300])"
  by (simp add: service_defs rt_B300_def ctx_never_def)

lemma ex_callB_cancelled:
  "callServiceB ctx_200ms rt_B300 100000000 =
     ((ServiceBData_zero, Some Canceled), 200000000,
      [ServiceDuration ''B'' 100, ServiceErrors ''B''])"
  by (simp add: service_defs rt_B300_def ctx_200ms_def)

lemma ex_callB_fail:
  "callServiceB ctx_never rt_Bfail 100000000 =
     ((ServiceBData_zero, Some (ErrorString ''service B simulated failure'')), 100000000,
      [ServiceDuration ''B'' 0, ServiceErrors ''B''])"
  by (simp add: service_defs rt_Bfail_def ctx_never_def)

lemma ex_run_async_ok:
  "\<exists>s. sys_exec (sys_init h_example 0 [(Async, ctx_never)]) run_async_ok = Some s \<and>
       hpc (invs s ! 0) =
         HResponded (JSON 200 (CombinedResponse \<lparr>a_Value = ''data-from-A'', a_SleepMs = 100\<rparr>
            \<lparr>b_Value = ''data-from-B'', b_SleepMs = 300\<rparr> ''async'' 300)) \<and>
       length (invs s) = 1"
  by (simp add: run_async_ok_def run_async_received_def sys_init_def new_invocation_def step_defs
      ex_callA100 ex_callB300 Since_ms_small StatusOK_def)

lemma ex_run_limited_cancelled:
  "\<exists>s. sys_exec (sys_init h_example 0 [(AsyncLimited, ctx_never), (AsyncLimited, ctx_100ms)])
         run_limited_cancelled = Some s \<and>
       hpc (invs s ! 1) =
         HResponded (JSON 503 (ErrorResponse ''async-limited'' 100 ''A:<nil> B:context canceled'')) \<and>
       b_result (invs s ! 1) = Some (ServiceBData_zero, Some Canceled)"
  by (simp add: run_limited_cancelled_def sys_init_def new_invocation_def step_defs ex_callA50
      is_Done_def respondErr_def Errorf_AB_def Since_ms_small StatusServiceUnavailable_def
      h_example_def,
      simp add: ctx_100ms_def ctx_never_def is_Done_def)


text \<open>
  Claim C3, evaluated where the code departs from it. In the sequential handler a caller
  that cancels 200 ms after the start, while B sleeps, receives status 503, the status
  of a simulated failure of B, and not 408. In the bounded handler a caller that cancels
  while the goroutine of B waits for the semaphore can receive 503 as well: the context's
  error comes through the result channel and the code after the loop does not tell it from
  a failure of the dependency. Only the error text differs.
\<close>

theorem cancellation_reported_as_unavailable:
  "fst (Sync ctx_200ms rt_A100 rt_B300 0) =
     JSON 503 (ErrorResponse ''sync'' 200 ''context canceled'') \<and>
   kind_of (fst (Sync ctx_200ms rt_A100 rt_B300 0)) = DependencyFailure \<and>
   fst (Sync ctx_never rt_A100 rt_Bfail 0) =
     JSON 503 (ErrorResponse ''sync'' 100 ''service B simulated failure'') \<and>
   (case sys_exec (sys_init h_example 0 [(AsyncLimited, ctx_never), (AsyncLimited, ctx_100ms)])
           run_limited_cancelled of
      None \<Rightarrow> False
    | Some s \<Rightarrow>
        b_result (invs s ! 1) = Some (ServiceBData_zero, Some Canceled) \<and>
        hpc (invs s ! 1) =
          HResponded
            (JSON 503 (ErrorResponse ''async-limited'' 100 ''A:<nil> B:context canceled'')))"
proof -
  have 1: "fst (Sync ctx_200ms rt_A100 rt_B300 0) =
     JSON 503 (ErrorResponse ''sync'' 200 ''context canceled'')"
    by (simp add: Sync_def ex_callA100' ex_callB_cancelled respondErr_def Since_ms_small
        StatusServiceUnavailable_def)
  have 2: "fst (Sync ctx_never rt_A100 rt_Bfail 0) =
     JSON 503 (ErrorResponse ''sync'' 100 ''service B simulated failure'')"
    by (simp add: Sync_def ex_callA100 ex_callB_fail respondErr_def Since_ms_small
        StatusServiceUnavailable_def)
  have 3: "kind_of (fst (Sync ctx_200ms rt_A100 rt_B300 0)) = DependencyFailure"
    unfolding 1 by (simp add: kind_of_def StatusOK_def StatusServiceUnavailable_def)
  from ex_run_limited_cancelled obtain s where
    s: "sys_exec (sys_init h_example 0 [(AsyncLimited, ctx_never), (AsyncLimited, ctx_100ms)])
         run_limited_cancelled = Some s" and
    r: "hpc (invs s ! 1) =
         HResponded (JSON 503 (ErrorResponse ''async-limited'' 100 ''A:<nil> B:context canceled''))"
       "b_result (invs s ! 1) = Some (ServiceBData_zero, Some Canceled)"
    by blast
  show ?thesis unfolding s using 1 2 3 r by simp
qed

subsection \<open>What the loop answers after both receives\<close>

lemma sys_step_istep:
  assumes "sys_step s (Ev t i act) = Some s'"
  shows "\<exists>n'. i < length (invs s) \<and> clock s \<le> t \<and>
           istep (hcfg s) (sem s) t (invs s ! i) act = Some (invs s' ! i, n')"
  using assms by (auto split: if_splits option.splits)

lemma both_received_step:
  assumes st: "istep h n t iv act = Some (iv', n')" and act: "h_action act"
    and v: "hpc iv = HLoop v" "gotA v" "gotB v"
  shows "hpc iv' = HResponded (fanin_finish (mode_name (strat iv)) (started iv) v t)"
proof (cases act)
  case HRecvA
  then have "h_recvA t iv = Some iv'" using st by (auto simp: keep_def)
  from h_recvA_eff[OF this] v show ?thesis by auto
next
  case HRecvB
  then have "h_recvB t iv = Some iv'" using st by (auto simp: keep_def)
  from h_recvB_eff[OF this] v show ?thesis by auto
next
  case HDone
  then have "h_done t iv = Some iv'" using st by (auto simp: keep_def)
  from h_done_eff[OF this] v show ?thesis by auto
next
  case HFinish
  then have "h_finish t iv = Some iv'" using st by (auto simp: keep_def)
  from h_finish_eff[OF this] v show ?thesis by (auto simp: h_view_def)
qed (use act in \<open>simp_all add: h_action_def\<close>)

lemma h_ok_got:
  assumes "h_ok iv" and "hpc iv = HLoop v" and "gotA v" and "gotB v"
  shows "a_result iv = Some (v_a v, v_eA v) \<and> b_result iv = Some (v_b v, v_eB v)"
  using assms unfolding h_ok_def h_view_def h_ok_v_def by auto

lemma response_before_done:
  assumes st: "istep h n t iv act = Some (iv', n')" and act: "h_action act"
    and r: "hpc iv' = HResponded r" and nd: "\<not> is_Done (req_ctx iv) t" and ok: "h_ok iv"
  shows "\<exists>x y. a_result iv = Some x \<and> b_result iv = Some y \<and>
           r = compose (mode_name (strat iv)) (started iv) x y t"
proof (cases act)
  case HRecvA
  then have "h_recvA t iv = Some iv'" using st by (auto simp: keep_def)
  from h_recvA_eff[OF this] r show ?thesis by (auto simp: h_view_def)
next
  case HRecvB
  then have "h_recvB t iv = Some iv'" using st by (auto simp: keep_def)
  from h_recvB_eff[OF this] r show ?thesis by (auto simp: h_view_def)
next
  case HDone
  then have "h_done t iv = Some iv'" using st by (auto simp: keep_def)
  from h_done_eff[OF this] nd show ?thesis by auto
next
  case HFinish
  then have "h_finish t iv = Some iv'" using st by (auto simp: keep_def)
  from h_finish_eff[OF this] obtain v where
    v: "hpc iv = HLoop v" "gotA v" "gotB v" and
    vw: "h_view iv' =
       (HResponded (fanin_finish (mode_name (strat iv)) (started iv) v t),
        apc iv, bpc iv, aCh iv, bCh iv, a_result iv, b_result iv, started iv, strat iv)"
    by blast
  have "r = fanin_finish (mode_name (strat iv)) (started iv) v t"
    using vw r by (simp add: h_view_def)
  with h_ok_got[OF ok v] show ?thesis by (simp add: finish_compose)
qed (use act in \<open>simp_all add: h_action_def\<close>)

lemma compose_kinds:
  "(snd x \<noteq> None \<or> snd y \<noteq> None \<longrightarrow>
      compose m st x y t =
        JSON StatusServiceUnavailable
          (ErrorResponse m (Since_ms st t) (''A:'' @ fmt_v (snd x) @ '' B:'' @ fmt_v (snd y))) \<and>
      kind_of (compose m st x y t) = DependencyFailure) \<and>
   (snd x = None \<and> snd y = None \<longrightarrow>
      compose m st x y t = JSON StatusOK (CombinedResponse (fst x) (fst y) m (Since_ms st t)) \<and>
      kind_of (compose m st x y t) = Success)"
  by (auto simp: compose_def respondErr_def Errorf_AB_def kind_of_def
      StatusOK_def StatusServiceUnavailable_def)

text \<open>
  Claim C5, as the code has it. In every state the server can reach, for each
  invocation of a concurrent handler: once the loop has received both results, they are
  the results the two goroutines computed, the code after the loop can run, and the only
  step the handler takes answers with the response composed from them, whether or not
  the context is done by then; an iteration or the code after the loop run at an instant
  at which the context is not done never answers with the cancellation, and what it
  answers is composed from the two computed results; every response is either the one of
  the cancellation case or composed in this way. The composed response is 503 with the
  text naming both errors when either result carries an error, otherwise 200 with both
  payloads. Fed both results in either order, the loop returns the composed response.
  Results that are ready in their channels but not yet received when the context is
  done are not covered: the loop's \<^verbatim>\<open>select\<close> may then take the cancellation case.
\<close>

theorem fanin_received_results_composed:
  assumes "sys_exec (sys_init h t0 rqs) evs = Some s" and "i < length (invs s)"
  shows "(\<forall>v. hpc (invs s ! i) = HLoop v \<and> gotA v \<and> gotB v \<longrightarrow>
            a_result (invs s ! i) = Some (v_a v, v_eA v) \<and>
            b_result (invs s ! i) = Some (v_b v, v_eB v) \<and>
            (\<forall>t\<ge>clock s. sys_step s (Ev t i HFinish) \<noteq> None) \<and>
            (\<forall>t act s'. h_action act \<and> sys_step s (Ev t i act) = Some s' \<longrightarrow>
               hpc (invs s' ! i) =
                 HResponded (compose (mode_name (strat (invs s ! i))) (started (invs s ! i))
                               (v_a v, v_eA v) (v_b v, v_eB v) t))) \<and>
         (\<forall>t act s' r. h_action act \<and> sys_step s (Ev t i act) = Some s' \<and>
              hpc (invs s' ! i) = HResponded r \<and> \<not> is_Done (req_ctx (invs s ! i)) t \<longrightarrow>
            (\<exists>x y. a_result (invs s ! i) = Some x \<and> b_result (invs s ! i) = Some y \<and>
               r = compose (mode_name (strat (invs s ! i))) (started (invs s ! i)) x y t)) \<and>
         (\<forall>r. hpc (invs s ! i) = HResponded r \<longrightarrow>
            (\<exists>t e. r = respondErr (mode_name (strat (invs s ! i))) (started (invs s ! i)) t
                       StatusRequestTimeout e) \<or>
            (\<exists>t x y. a_result (invs s ! i) = Some x \<and> b_result (invs s ! i) = Some y \<and>
               r = compose (mode_name (strat (invs s ! i))) (started (invs s ! i)) x y t)) \<and>
         (\<forall>m st x y t.
            (snd x \<noteq> None \<or> snd y \<noteq> None \<longrightarrow>
               compose m st x y t =
                 JSON StatusServiceUnavailable
                   (ErrorResponse m (Since_ms st t)
                      (''A:'' @ fmt_v (snd x) @ '' B:'' @ fmt_v (snd y))) \<and>
               kind_of (compose m st x y t) = DependencyFailure) \<and>
            (snd x = None \<and> snd y = None \<longrightarrow>
               compose m st x y t =
                 JSON StatusOK (CombinedResponse (fst x) (fst y) m (Since_ms st t)) \<and>
               kind_of (compose m st x y t) = Success)) \<and>
         (\<forall>m c st x y t1 t2.
            fanin m c st fanin_init [(RecvA x, t1), (RecvB y, t2)] st =
              Some (compose m st x y t2) \<and>
            fanin m c st fanin_init [(RecvB y, t1), (RecvA x, t2)] st =
              Some (compose m st x y t2))"
proof -
  let ?iv = "invs s ! i"
  have inv: "fanin_inv s"
    using sys_exec_fanin[OF fanin_inv_init assms(1)] .
  have ok: "h_ok ?iv" using inv assms(2) by (simp add: fanin_inv_def)
  have 1: "a_result ?iv = Some (v_a v, v_eA v) \<and>
            b_result ?iv = Some (v_b v, v_eB v) \<and>
            (\<forall>t\<ge>clock s. sys_step s (Ev t i HFinish) \<noteq> None) \<and>
            (\<forall>t act s'. h_action act \<and> sys_step s (Ev t i act) = Some s' \<longrightarrow>
               hpc (invs s' ! i) =
                 HResponded (compose (mode_name (strat ?iv)) (started ?iv)
                               (v_a v, v_eA v) (v_b v, v_eB v) t))"
    if v: "hpc ?iv = HLoop v" "gotA v" "gotB v" for v
  proof -
    have a: "\<forall>t\<ge>clock s. sys_step s (Ev t i HFinish) \<noteq> None"
      using handler_enabled[OF assms(2) v(1)] v by blast
    have b: "hpc (invs s' ! i) =
                 HResponded (compose (mode_name (strat ?iv)) (started ?iv)
                               (v_a v, v_eA v) (v_b v, v_eB v) t)"
      if "h_action act" "sys_step s (Ev t i act) = Some s'" for t act s'
    proof -
      from sys_step_istep[OF that(2)] obtain n' where
        "istep (hcfg s) (sem s) t ?iv act = Some (invs s' ! i, n')" by blast
      from both_received_step[OF this that(1) v] show ?thesis by (simp add: finish_compose)
    qed
    show ?thesis using h_ok_got[OF ok v] a b by blast
  qed
  have 2: "\<exists>x y. a_result ?iv = Some x \<and> b_result ?iv = Some y \<and>
               r = compose (mode_name (strat ?iv)) (started ?iv) x y t"
    if "h_action act" "sys_step s (Ev t i act) = Some s'" "hpc (invs s' ! i) = HResponded r"
      "\<not> is_Done (req_ctx ?iv) t" for t act s' r
  proof -
    from sys_step_istep[OF that(2)] obtain n' where
      "istep (hcfg s) (sem s) t ?iv act = Some (invs s' ! i, n')" by blast
    from response_before_done[OF this that(1) that(3) that(4) ok] show ?thesis .
  qed
  have 3: "\<forall>r. hpc ?iv = HResponded r \<longrightarrow>
            (\<exists>t e. r = respondErr (mode_name (strat ?iv)) (started ?iv) t StatusRequestTimeout e) \<or>
            (\<exists>t x y. a_result ?iv = Some x \<and> b_result ?iv = Some y \<and>
               r = compose (mode_name (strat ?iv)) (started ?iv) x y t)"
    using h_ok_responded[OF ok] by blast
  show ?thesis
    apply (intro conjI)
    subgoal using 1 by blast
    subgoal using 2 by blast
    subgoal using 3 .
    subgoal using compose_kinds by blast
    subgoal using fanin_AB fanin_BA by blast
    done
qed

lemma ex_callA100_300:
  "callServiceA ctx_300ms_1ns rt_A100 0 =
     ((\<lparr>a_Value = ''data-from-A'', a_SleepMs = 100\<rparr>, None), 100000000,
      [ServiceDuration ''A'' 100])"
  by (simp add: service_defs rt_A100_def ctx_300ms_1ns_def)

lemma ex_callB300_300:
  "callServiceB ctx_300ms_1ns rt_B300 0 =
     ((\<lparr>b_Value = ''data-from-B'', b_SleepMs = 300\<rparr>, None), 300000000,
      [ServiceDuration ''B'' 300])"
  by (simp add: service_defs rt_B300_def ctx_300ms_1ns_def)

lemma ex_run_async_received:
  "\<exists>s. sys_exec (sys_init h_example 0 [(Async, ctx_never)]) run_async_received = Some s \<and>
       hpc (invs s ! 0) =
         HLoop \<lparr>gotA = True, gotB = True,
                v_a = \<lparr>a_Value = ''data-from-A'', a_SleepMs = 100\<rparr>,
                v_b = \<lparr>b_Value = ''data-from-B'', b_SleepMs = 300\<rparr>,
                v_eA = None, v_eB = None\<rparr> \<and>
       length (invs s) = 1 \<and> clock s = 300000000 \<and>
       strat (invs s ! 0) = Async \<and> started (invs s ! 0) = 0"
  by (simp add: run_async_received_def sys_init_def new_invocation_def step_defs
      ex_callA100 ex_callB300)

theorem fanin_received_results_composed_witness:
  "(case sys_exec (sys_init h_example 0 [(Async, ctx_never)]) run_async_received of
      None \<Rightarrow> False
    | Some s \<Rightarrow>
        0 < length (invs s) \<and>
        a_result (invs s ! 0) = Some (\<lparr>a_Value = ''data-from-A'', a_SleepMs = 100\<rparr>, None) \<and>
        b_result (invs s ! 0) = Some (\<lparr>b_Value = ''data-from-B'', b_SleepMs = 300\<rparr>, None) \<and>
        (case sys_step s (Ev 300000000 0 HFinish) of
           None \<Rightarrow> False
         | Some s' \<Rightarrow>
             hpc (invs s' ! 0) =
               HResponded
                 (JSON 200 (CombinedResponse \<lparr>a_Value = ''data-from-A'', a_SleepMs = 100\<rparr>
                    \<lparr>b_Value = ''data-from-B'', b_SleepMs = 300\<rparr> ''async'' 300))))"
proof -
  let ?v = "\<lparr>gotA = True, gotB = True,
                v_a = \<lparr>a_Value = ''data-from-A'', a_SleepMs = 100\<rparr>,
                v_b = \<lparr>b_Value = ''data-from-B'', b_SleepMs = 300\<rparr>,
                v_eA = None, v_eB = None\<rparr>"
  from ex_run_async_received obtain s where
    s: "sys_exec (sys_init h_example 0 [(Async, ctx_never)]) run_async_received = Some s" and
    v: "hpc (invs s ! 0) = HLoop ?v" and
    f: "length (invs s) = 1" "clock s = 300000000" "strat (invs s ! 0) = Async"
       "started (invs s ! 0) = 0"
    by blast
  have i: "0 < length (invs s)" using f by simp
  note t = fanin_received_results_composed[OF s i, THEN conjunct1, rule_format, of ?v]
  note k = fanin_received_results_composed[OF s i, THEN conjunct2, THEN conjunct2,
      THEN conjunct2, THEN conjunct1, rule_format,
      of "(\<lparr>a_Value = ''data-from-A'', a_SleepMs = 100\<rparr>, None)"
         "(\<lparr>b_Value = ''data-from-B'', b_SleepMs = 300\<rparr>, None)" "''async''" 0 300000000]
  have r: "a_result (invs s ! 0) = Some (\<lparr>a_Value = ''data-from-A'', a_SleepMs = 100\<rparr>, None)"
          "b_result (invs s ! 0) = Some (\<lparr>b_Value = ''data-from-B'', b_SleepMs = 300\<rparr>, None)"
    using t v by simp_all
  have en: "sys_step s (Ev 300000000 0 HFinish) \<noteq> None"
    using t v f(2) by simp
  then obtain s' where s': "sys_step s (Ev 300000000 0 HFinish) = Some s'" by blast
  have "hpc (invs s' ! 0) =
          HResponded (compose ''async'' 0 (\<lparr>a_Value = ''data-from-A'', a_SleepMs = 100\<rparr>, None)
             (\<lparr>b_Value = ''data-from-B'', b_SleepMs = 300\<rparr>, None) 300000000)"
    using t[OF conjI[OF v], THEN conjunct2, THEN conjunct2, THEN conjunct2, rule_format,
        of HFinish 300000000 s'] s' f
    by (simp add: h_action_def)
  then have "hpc (invs s' ! 0) =
               HResponded
                 (JSON 200 (CombinedResponse \<lparr>a_Value = ''data-from-A'', a_SleepMs = 100\<rparr>
                    \<lparr>b_Value = ''data-from-B'', b_SleepMs = 300\<rparr> ''async'' 300))"
    using k by (simp add: Since_ms_small StatusOK_def)
  then show ?thesis unfolding s using i r s' by simp
qed

text \<open>
  A run in which readiness of the results is not enough. Both results have arrived
  before the context is done, and the response is the cancellation: after 300 ms A's result is received and B's result is in its channel,
  both without error, and the context is not done; one nanosecond later it is, and the
  loop's \<^verbatim>\<open>select\<close> takes \<^verbatim>\<open>ctx.Done()\<close>.
\<close>

theorem fanin_ready_results_discarded:
  "fanin_state 0 (sys_exec (sys_init h_example 0 [(Async, ctx_300ms_1ns)]) run_both_ready) =
     Some (HLoop \<lparr>gotA = True, gotB = False,
                  v_a = \<lparr>a_Value = ''data-from-A'', a_SleepMs = 100\<rparr>,
                  v_b = ServiceBData_zero, v_eA = None, v_eB = None\<rparr>,
           None, Some (\<lparr>b_Value = ''data-from-B'', b_SleepMs = 300\<rparr>, None),
           Some (\<lparr>a_Value = ''data-from-A'', a_SleepMs = 100\<rparr>, None),
           Some (\<lparr>b_Value = ''data-from-B'', b_SleepMs = 300\<rparr>, None), 300000000) \<and>
   \<not> is_Done ctx_300ms_1ns 300000000 \<and>
   fanin_state 0
     (sys_exec (sys_init h_example 0 [(Async, ctx_300ms_1ns)])
        (run_both_ready @ [Ev 300000001 0 HDone])) =
     Some (HResponded (JSON 408 (ErrorResponse ''async'' 300 ''context canceled'')),
           None, Some (\<lparr>b_Value = ''data-from-B'', b_SleepMs = 300\<rparr>, None),
           Some (\<lparr>a_Value = ''data-from-A'', a_SleepMs = 100\<rparr>, None),
           Some (\<lparr>b_Value = ''data-from-B'', b_SleepMs = 300\<rparr>, None), 300000001) \<and>
   kind_of (JSON 408 (ErrorResponse ''async'' 300 ''context canceled'')) = Cancelled \<and>
   kind_of (JSON 408 (ErrorResponse ''async'' 300 ''context canceled'')) \<noteq> Success"
proof -
  have 1: "fanin_state 0 (sys_exec (sys_init h_example 0 [(Async, ctx_300ms_1ns)]) run_both_ready) =
     Some (HLoop \<lparr>gotA = True, gotB = False,
                  v_a = \<lparr>a_Value = ''data-from-A'', a_SleepMs = 100\<rparr>,
                  v_b = ServiceBData_zero, v_eA = None, v_eB = None\<rparr>,
           None, Some (\<lparr>b_Value = ''data-from-B'', b_SleepMs = 300\<rparr>, None),
           Some (\<lparr>a_Value = ''data-from-A'', a_SleepMs = 100\<rparr>, None),
           Some (\<lparr>b_Value = ''data-from-B'', b_SleepMs = 300\<rparr>, None), 300000000)"
    by (simp add: run_both_ready_def sys_init_def new_invocation_def step_defs
        ex_callA100_300 ex_callB300_300)
  have 2: "\<not> is_Done ctx_300ms_1ns 300000000"
    by (simp add: is_Done_def ctx_300ms_1ns_def)
  have 3: "fanin_state 0
     (sys_exec (sys_init h_example 0 [(Async, ctx_300ms_1ns)])
        (run_both_ready @ [Ev 300000001 0 HDone])) =
     Some (HResponded (JSON 408 (ErrorResponse ''async'' 300 ''context canceled'')),
           None, Some (\<lparr>b_Value = ''data-from-B'', b_SleepMs = 300\<rparr>, None),
           Some (\<lparr>a_Value = ''data-from-A'', a_SleepMs = 100\<rparr>, None),
           Some (\<lparr>b_Value = ''data-from-B'', b_SleepMs = 300\<rparr>, None), 300000001)"
    by (simp add: run_both_ready_def sys_init_def new_invocation_def step_defs
        ex_callA100_300 ex_callB300_300 respondErr_def Since_ms_small StatusRequestTimeout_def,
        simp add: is_Done_def ctx_300ms_1ns_def)
  have 4: "kind_of (JSON 408 (ErrorResponse ''async'' 300 ''context canceled'')) = Cancelled"
    by (simp add: kind_of_def StatusOK_def StatusServiceUnavailable_def StatusRequestTimeout_def)
  show ?thesis using 1 2 3 4 by simp
qed

subsection \<open>Configuration at start-up\<close>








end
